theory Spec2Isabelle
  imports Complex_Main
begin

section \<open>Numbers\<close>

text \<open>
  The program computes with two floating-point types: the host (JavaScript) with 64-bit
  numbers, the fragment shader (GLSL) with \<open>highp float\<close>. A number is modelled by the
  real it denotes, and a floating-point format by its rounding operator: every arithmetic
  operation of the source is the exact operation on reals followed by the rounding of the
  format that executes it. The rounding operator is a parameter of every definition, so a
  theorem holds for each format it is instantiated with; \<open>round_nearest_even\<close> below
  gives the two concrete formats. Literals that are dyadic numbers of a few bits
  (\<open>0.5\<close>, \<open>2.0\<close>, \<open>256.0\<close>, \<open>4097.0\<close>, loop counters below 2000) are written without
  rounding, other literals (\<open>0.01\<close>) are rounded. A GLSL built-in (\<open>length\<close>, \<open>dot\<close>,
  \<open>log\<close>, \<open>atan\<close>, \<open>pow\<close>) is its exact result, rounded once. Negation, \<open>abs\<close>,
  \<open>min\<close>, \<open>max\<close> and \<open>floor\<close> are exact. Infinities, NaN, signed zeros and the exponent range
  are outside the model.
\<close>

type_synonym rounding = "real \<Rightarrow> real"

type_synonym vec2 = "real \<times> real"

subsection \<open>Round to nearest, ties to even, with \<open>p\<close> significant bits\<close>

function bit_length :: "int \<Rightarrow> nat" where
  "bit_length n = (if n \<le> 0 then 0 else Suc (bit_length (n div 2)))"
  by pat_completeness auto
termination
  by (relation "measure nat") auto

declare bit_length.simps [simp del]

text \<open>\<open>exponent_of x\<close> is the \<open>e\<close> with \<open>2^e \<le> x < 2^(e+1)\<close>, for \<open>0 < x\<close>.\<close>

definition exponent_of :: "real \<Rightarrow> int" where
  "exponent_of x =
     (if 1 \<le> x then int (bit_length \<lfloor>x\<rfloor>) - 1
      else - int (bit_length (\<lceil>1 / x\<rceil> - 1)))"

definition pow2 :: "int \<Rightarrow> real" where
  "pow2 e = (if 0 \<le> e then 2 ^ nat e else 1 / 2 ^ nat (- e))"

definition round_half_even :: "real \<Rightarrow> int" where
  "round_half_even r =
     (let f = \<lfloor>r\<rfloor>; d = r - of_int f
      in if d < 1 / 2 then f
         else if 1 / 2 < d then f + 1
         else if even f then f else f + 1)"

definition round_nearest_even :: "nat \<Rightarrow> rounding" where
  "round_nearest_even p x =
     (if x = 0 then 0
      else let u = pow2 (exponent_of \<bar>x\<bar> - int p + 1)
           in sgn x * of_int (round_half_even (\<bar>x\<bar> / u)) * u)"

definition binary32 :: rounding where
  "binary32 = round_nearest_even 24"

definition binary64 :: rounding where
  "binary64 = round_nearest_even 53"

subsection \<open>Representable numbers and roundings to nearest\<close>

text \<open>
  A number is representable with \<open>p\<close> significant bits when it is an integer below \<open>2^p\<close>
  in magnitude times a power of two. A rounding to nearest maps every real to a
  representable number that no other representable number beats in distance; how ties
  are broken is left open.
\<close>

definition representable :: "nat \<Rightarrow> real \<Rightarrow> bool" where
  "representable p x \<longleftrightarrow> (\<exists>m e :: int. \<bar>m\<bar> < 2 ^ p \<and> x = of_int m * pow2 e)"

definition nearest_rounding :: "nat \<Rightarrow> rounding \<Rightarrow> bool" where
  "nearest_rounding p rnd \<longleftrightarrow>
     (\<forall>x. representable p (rnd x) \<and> (\<forall>f. representable p f \<longrightarrow> \<bar>rnd x - x\<bar> \<le> \<bar>f - x\<bar>))"

text \<open>The rounding seen through a change of sign, itself a rounding to nearest.\<close>

definition mirrored :: "rounding \<Rightarrow> rounding" where
  "mirrored rnd x = - rnd (- x)"

section \<open>The fragment shader\<close>

subsection \<open>Double-double arithmetic\<close>

definition twoSum :: "rounding \<Rightarrow> real \<Rightarrow> real \<Rightarrow> vec2" where
  "twoSum rnd a b =
     (let s = rnd (a + b);
          v = rnd (s - a);
          e = rnd (rnd (a - rnd (s - v)) + rnd (b - v))
      in (s, e))"

definition twoProd :: "rounding \<Rightarrow> real \<Rightarrow> real \<Rightarrow> vec2" where
  "twoProd rnd a b =
     (let p = rnd (a * b);
          splitA = rnd (a * 4097);
          aHi = rnd (splitA - rnd (splitA - a));
          aLo = rnd (a - aHi);
          splitB = rnd (b * 4097);
          bHi = rnd (splitB - rnd (splitB - b));
          bLo = rnd (b - bHi);
          e = rnd (rnd (rnd (rnd (rnd (aHi * bHi) - p) + rnd (aHi * bLo)) + rnd (aLo * bHi))
                   + rnd (aLo * bLo))
      in (p, e))"

definition ddAdd :: "rounding \<Rightarrow> vec2 \<Rightarrow> vec2 \<Rightarrow> vec2" where
  "ddAdd rnd a b =
     (let s = twoSum rnd (fst a) (fst b);
          t = twoSum rnd (snd a) (snd b);
          s = (fst s, rnd (snd s + fst t));
          s = twoSum rnd (fst s) (snd s);
          s = (fst s, rnd (snd s + snd t))
      in twoSum rnd (fst s) (snd s))"

definition ddMul :: "rounding \<Rightarrow> vec2 \<Rightarrow> vec2 \<Rightarrow> vec2" where
  "ddMul rnd a b =
     (let p = twoProd rnd (fst a) (fst b);
          p = (fst p, rnd (snd p + rnd (rnd (fst a * snd b) + rnd (snd a * fst b))))
      in twoSum rnd (fst p) (snd p))"

definition ddSub :: "rounding \<Rightarrow> vec2 \<Rightarrow> vec2 \<Rightarrow> vec2" where
  "ddSub rnd a b = ddAdd rnd a (- fst b, - snd b)"

definition ddFromFloat :: "real \<Rightarrow> vec2" where
  "ddFromFloat a = (a, 0)"

text \<open>The two \<open>out\<close> parameters \<open>rx\<close>, \<open>ry\<close> are returned as a pair.\<close>

definition ddComplexMul :: "rounding \<Rightarrow> vec2 \<Rightarrow> vec2 \<Rightarrow> vec2 \<Rightarrow> vec2 \<Rightarrow> vec2 \<times> vec2" where
  "ddComplexMul rnd zx zy wx wy =
     (let zxwx = ddMul rnd zx wx;
          zywy = ddMul rnd zy wy;
          zxwy = ddMul rnd zx wy;
          zywx = ddMul rnd zy wx
      in (ddSub rnd zxwx zywy, ddAdd rnd zxwy zywx))"

definition ddComplexSquare :: "rounding \<Rightarrow> vec2 \<Rightarrow> vec2 \<Rightarrow> vec2 \<times> vec2" where
  "ddComplexSquare rnd zx zy =
     (let zx2 = ddMul rnd zx zx;
          zy2 = ddMul rnd zy zy;
          zxzy = ddMul rnd zx zy
      in (ddSub rnd zx2 zy2, ddAdd rnd zxzy zxzy))"

subsection \<open>Built-in functions\<close>

text \<open>
  Each built-in function is its exact result, rounded once. The two-argument arctangent
  is not defined by the language when both arguments are zero, and the logarithm is not
  defined at zero and below; the model takes the angle 0 and the value of \<open>ln\<close> there.
  No theorem below depends on these choices, except through a product with a radius
  that is zero.
\<close>

definition atan2 :: "real \<Rightarrow> real \<Rightarrow> real" where
  "atan2 y x =
     (if 0 < x then arctan (y / x)
      else if x < 0 then (if 0 \<le> y then arctan (y / x) + pi else arctan (y / x) - pi)
      else if 0 < y then pi / 2
      else if y < 0 then - (pi / 2)
      else 0)"

definition glsl_length :: "rounding \<Rightarrow> vec2 \<Rightarrow> real" where
  "glsl_length rnd v = rnd (sqrt (fst v * fst v + snd v * snd v))"

definition glsl_dot :: "rounding \<Rightarrow> vec2 \<Rightarrow> vec2 \<Rightarrow> real" where
  "glsl_dot rnd a b = rnd (fst a * fst b + snd a * snd b)"

definition glsl_log :: "rounding \<Rightarrow> real \<Rightarrow> real" where
  "glsl_log rnd x = rnd (ln x)"

definition glsl_atan :: "rounding \<Rightarrow> real \<Rightarrow> real \<Rightarrow> real" where
  "glsl_atan rnd y x = rnd (atan2 y x)"

definition glsl_pow :: "rounding \<Rightarrow> real \<Rightarrow> real \<Rightarrow> real" where
  "glsl_pow rnd x y = rnd (x powr y)"

subsection \<open>Standard complex arithmetic\<close>

definition complexMul :: "rounding \<Rightarrow> vec2 \<Rightarrow> vec2 \<Rightarrow> vec2" where
  "complexMul rnd a b =
     (rnd (rnd (fst a * fst b) - rnd (snd a * snd b)),
      rnd (rnd (fst a * snd b) + rnd (snd a * fst b)))"

definition complexPower :: "rounding \<Rightarrow> vec2 \<Rightarrow> real \<Rightarrow> vec2" where
  "complexPower rnd z n =
     (if \<bar>rnd (n - 2)\<bar> < rnd (1 / 100)
      then (rnd (rnd (fst z * fst z) - rnd (snd z * snd z)), rnd (rnd (2 * fst z) * snd z))
      else let r = glsl_length rnd z;
               theta = glsl_atan rnd (snd z) (fst z);
               newR = glsl_pow rnd r n;
               newTheta = rnd (n * theta)
           in (rnd (newR * rnd (cos newTheta)), rnd (newR * rnd (sin newTheta))))"

subsection \<open>The per-pixel iteration of \<open>main\<close>\<close>

record uniforms =
  u_resolution :: vec2
  u_center :: vec2
  u_centerLow :: vec2
  u_zoom :: real
  u_power :: real
  u_maxIter :: real
  u_base :: real
  u_colorScheme :: real
  u_colorOffset :: real
  u_burningShip :: real
  u_juliaMode :: real
  u_juliaC :: vec2
  u_coloringMode :: real
  u_useDoublePrecision :: real

text \<open>
  The local variables of \<open>main\<close> that the loops read and write. \<open>z\<close> is declared without
  an initial value; \<open>zInit\<close> stands for whatever it holds then.
\<close>

record locals =
  loc_iterations :: real
  loc_minDist :: real
  loc_minDistCross :: real
  loc_z :: vec2
  loc_dz :: vec2
  loc_zxDD :: vec2
  loc_zyDD :: vec2

definition initLocals :: "vec2 \<Rightarrow> locals" where
  "initLocals zInit =
     \<lparr>loc_iterations = 0, loc_minDist = 1000, loc_minDistCross = 1000, loc_z = zInit, loc_dz = (1, 0),
      loc_zxDD = (0, 0), loc_zyDD = (0, 0)\<rparr>"

definition pixel_uv :: "rounding \<Rightarrow> uniforms \<Rightarrow> vec2 \<Rightarrow> vec2" where
  "pixel_uv rnd u fragCoord =
     (let uv = (rnd (fst fragCoord / fst (u_resolution u)),
                rnd (snd fragCoord / snd (u_resolution u)));
          uv = (rnd (rnd (fst uv - 1 / 2) * 2), rnd (rnd (snd uv - 1 / 2) * 2))
      in (rnd (fst uv * rnd (fst (u_resolution u) / snd (u_resolution u))), snd uv))"

text \<open>The condition of the branch in \<open>main\<close> that selects the double-double path.\<close>

definition useDoubleDouble :: "rounding \<Rightarrow> uniforms \<Rightarrow> bool" where
  "useDoubleDouble rnd u \<longleftrightarrow>
     1 / 2 < u_useDoublePrecision u \<and> \<bar>rnd (u_power u - 2)\<bar> < rnd (1 / 100)
     \<and> u_juliaMode u < 1 / 2 \<and> u_burningShip u < 1 / 2"

text \<open>
  The smoothed count assigned on escape: \<open>float(i) + 1.0 - nu\<close>, where the inner divisor
  is always \<open>log(2.0)\<close> and the outer divisor is \<open>log(2.0)\<close> in the double-double loop
  and \<open>log(u_power)\<close> in the standard loop; \<open>outer\<close> is that argument. For
  \<open>u_power = 1\<close> the outer divisor is zero and the count of the program is not a finite
  number; the value of the model there means nothing.
\<close>

definition smoothCount :: "rounding \<Rightarrow> real \<Rightarrow> nat \<Rightarrow> real \<Rightarrow> real" where
  "smoothCount rnd outer i magSq =
     (let log_zn = rnd (glsl_log rnd magSq / 2);
          nu = rnd (glsl_log rnd (rnd (log_zn / glsl_log rnd 2)) / glsl_log rnd outer)
      in rnd (rnd (real i + 1) - nu))"

text \<open>
  How a loop ends: by the escape test, by the check against \<open>u_maxIter\<close>, or by its
  structural bound \<open>i < 2000\<close>. A loop returns this together with the number of iteration
  steps it has performed and the locals.
\<close>

datatype exit = Escaped | CapReached | BoundReached

definition orbitTrap :: "rounding \<Rightarrow> locals \<Rightarrow> locals" where
  "orbitTrap rnd l =
     (let distToOrigin = glsl_length rnd (loc_z l)
      in l\<lparr>loc_minDist := min (loc_minDist l) distToOrigin,
           loc_minDistCross := min (loc_minDistCross l) (min \<bar>fst (loc_z l)\<bar> \<bar>snd (loc_z l)\<bar>)\<rparr>)"

definition ddStep :: "rounding \<Rightarrow> vec2 \<Rightarrow> vec2 \<Rightarrow> locals \<Rightarrow> locals" where
  "ddStep rnd cxDD cyDD l =
     (let (newZxDD, newZyDD) = ddComplexSquare rnd (loc_zxDD l) (loc_zyDD l);
          l = l\<lparr>loc_zxDD := ddAdd rnd newZxDD cxDD\<rparr>;
          l = l\<lparr>loc_zyDD := ddAdd rnd newZyDD cyDD\<rparr>;
          l = l\<lparr>loc_z := (fst (loc_zxDD l), fst (loc_zyDD l))\<rparr>
      in orbitTrap rnd l)"

function ddLoop :: "rounding \<Rightarrow> uniforms \<Rightarrow> vec2 \<Rightarrow> vec2 \<Rightarrow> nat \<Rightarrow> locals \<Rightarrow> exit \<times> nat \<times> locals" where
  "ddLoop rnd u cxDD cyDD i l =
     (if i < 2000 then
        if u_maxIter u \<le> real i then (CapReached, i, l)
        else let l = ddStep rnd cxDD cyDD l;
                 magSq = glsl_dot rnd (loc_z l) (loc_z l)
             in if 256 < magSq
                then (Escaped, Suc i, l\<lparr>loc_iterations := smoothCount rnd 2 i magSq\<rparr>)
                else ddLoop rnd u cxDD cyDD (Suc i) (l\<lparr>loc_iterations := real i\<rparr>)
      else (BoundReached, i, l))"
  by pat_completeness auto
termination
  by (relation "measure (\<lambda>(rnd, u, cxDD, cyDD, i, l). 2000 - i)") auto

declare ddLoop.simps [simp del]

definition stdStep :: "rounding \<Rightarrow> uniforms \<Rightarrow> vec2 \<Rightarrow> locals \<Rightarrow> locals" where
  "stdStep rnd u c l =
     (let l = (if 1 / 2 < u_burningShip u then l\<lparr>loc_z := (\<bar>fst (loc_z l)\<bar>, \<bar>snd (loc_z l)\<bar>)\<rparr> else l);
          l = (if \<bar>rnd (u_power u - 2)\<bar> < rnd (1 / 100)
               then let m = complexMul rnd (loc_z l) (loc_dz l)
                    in l\<lparr>loc_dz := (rnd (rnd (2 * fst m) + 1), rnd (rnd (2 * snd m) + 0))\<rparr>
               else let m = complexMul rnd (complexPower rnd (loc_z l) (rnd (u_power u - 1))) (loc_dz l)
                    in l\<lparr>loc_dz := (rnd (rnd (u_power u * fst m) + 1),
                                 rnd (rnd (u_power u * snd m) + 0))\<rparr>);
          w = complexPower rnd (loc_z l) (u_power u);
          l = l\<lparr>loc_z := (rnd (fst w + fst c), rnd (snd w + snd c))\<rparr>
      in orbitTrap rnd l)"

function stdLoop :: "rounding \<Rightarrow> uniforms \<Rightarrow> vec2 \<Rightarrow> nat \<Rightarrow> locals \<Rightarrow> exit \<times> nat \<times> locals" where
  "stdLoop rnd u c i l =
     (if i < 2000 then
        if u_maxIter u \<le> real i then (CapReached, i, l)
        else let l = stdStep rnd u c l;
                 magSq = glsl_dot rnd (loc_z l) (loc_z l)
             in if 256 < magSq
                then (Escaped, Suc i, l\<lparr>loc_iterations := smoothCount rnd (u_power u) i magSq\<rparr>)
                else stdLoop rnd u c (Suc i) (l\<lparr>loc_iterations := real i\<rparr>)
      else (BoundReached, i, l))"
  by pat_completeness auto
termination
  by (relation "measure (\<lambda>(rnd, u, c, i, l). 2000 - i)") auto

declare stdLoop.simps [simp del]

text \<open>
  \<open>main\<close> up to the end of the loops: the branch on the precision switch, the pixel's
  constant \<open>c\<close>, the start value of \<open>z\<close>, and the loop of the chosen path.
\<close>

definition iterate :: "rounding \<Rightarrow> uniforms \<Rightarrow> vec2 \<Rightarrow> vec2 \<Rightarrow> exit \<times> nat \<times> locals" where
  "iterate rnd u fragCoord zInit =
     (let uv = pixel_uv rnd u fragCoord;
          l = initLocals zInit
      in if useDoubleDouble rnd u
         then let uvScale = rnd (2 / u_zoom u);
                  cxDD = ddAdd rnd (fst (u_center u), fst (u_centerLow u))
                           (ddFromFloat (rnd (fst uv * uvScale)));
                  cyDD = ddAdd rnd (snd (u_center u), snd (u_centerLow u))
                           (ddFromFloat (rnd (snd uv * uvScale)))
              in ddLoop rnd u cxDD cyDD 0 (l\<lparr>loc_zxDD := (0, 0), loc_zyDD := (0, 0)\<rparr>)
         else let c = (rnd (fst (u_center u) + rnd (rnd (fst uv * 2) / u_zoom u)),
                       rnd (snd (u_center u) + rnd (rnd (snd uv * 2) / u_zoom u)))
              in if 1 / 2 < u_juliaMode u
                 then stdLoop rnd u (u_juliaC u) 0 (l\<lparr>loc_z := c\<rparr>)
                 else stdLoop rnd u c 0 (l\<lparr>loc_z := (0, 0)\<rparr>))"

text \<open>The distance estimate that \<open>main\<close> computes after the loops.\<close>

definition distanceEstimate :: "rounding \<Rightarrow> uniforms \<Rightarrow> locals \<Rightarrow> real" where
  "distanceEstimate rnd u l =
     (let zMag = glsl_length rnd (loc_z l);
          dzMag = glsl_length rnd (loc_dz l)
      in if 0 < dzMag \<and> loc_iterations l < rnd (u_maxIter u - 1 / 2)
         then rnd (rnd (rnd (glsl_log rnd (rnd (zMag * zMag)) * zMag) / dzMag) * (1 / 2))
         else 0)"

section \<open>The host\<close>

subsection \<open>ComplexMath\<close>

definition complexPower_js :: "rounding \<Rightarrow> vec2 \<Rightarrow> real \<Rightarrow> vec2" where
  "complexPower_js rnd z n =
     (let x = fst z; y = snd z
      in if \<bar>rnd (n - 2)\<bar> < rnd (1 / 100)
         then (rnd (rnd (x * x) - rnd (y * y)), rnd (rnd (2 * x) * y))
         else let r = rnd (sqrt (rnd (rnd (x * x) + rnd (y * y))))
              in if r = 0 then (0, 0)
                 else let theta = rnd (atan2 y x);
                          newR = rnd (r powr n);
                          newTheta = rnd (n * theta)
                      in (rnd (newR * rnd (cos newTheta)), rnd (newR * rnd (sin newTheta))))"

definition magnitudeSquared :: "rounding \<Rightarrow> vec2 \<Rightarrow> real" where
  "magnitudeSquared rnd z = rnd (rnd (fst z * fst z) + rnd (snd z * snd z))"

definition complexAdd :: "rounding \<Rightarrow> vec2 \<Rightarrow> vec2 \<Rightarrow> vec2" where
  "complexAdd rnd a b = (rnd (fst a + fst b), rnd (snd a + snd b))"

record options =
  opt_burningShip :: bool
  opt_juliaMode :: bool
  opt_juliaC :: vec2

definition defaultOptions :: options where
  "defaultOptions = \<lparr>opt_burningShip = False, opt_juliaMode = False, opt_juliaC = (0, 0)\<rparr>"

text \<open>
  The loop of \<open>mandelbrotIteration\<close>, from counter \<open>i\<close> and value \<open>z\<close>: \<open>Some i\<close> when the
  escape test succeeds in step \<open>i\<close> (the \<open>return i\<close>), \<open>None\<close> when the loop runs to its end.
\<close>

function mandelbrotLoop ::
  "rounding \<Rightarrow> bool \<Rightarrow> real \<Rightarrow> vec2 \<Rightarrow> real \<Rightarrow> nat \<Rightarrow> vec2 \<Rightarrow> nat option" where
  "mandelbrotLoop rnd burningShip pwr constant maxIter i z =
     (if real i < maxIter then
        let z = (if burningShip then (\<bar>fst z\<bar>, \<bar>snd z\<bar>) else z);
            z = complexAdd rnd (complexPower_js rnd z pwr) constant
        in if 4 < magnitudeSquared rnd z then Some i
           else mandelbrotLoop rnd burningShip pwr constant maxIter (Suc i) z
      else None)"
  by pat_completeness auto
termination
  apply (relation "measure (\<lambda>(rnd, b, p, c, maxIter, i, z). nat \<lceil>maxIter\<rceil> - i)")
   apply simp
  apply simp
  apply linarith
  done

declare mandelbrotLoop.simps [simp del]

definition mandelbrotIteration :: "rounding \<Rightarrow> vec2 \<Rightarrow> real \<Rightarrow> real \<Rightarrow> options \<Rightarrow> real" where
  "mandelbrotIteration rnd c maxIter pwr opts =
     (let z = (if opt_juliaMode opts then c else (0, 0));
          constant = (if opt_juliaMode opts then opt_juliaC opts else c)
      in case mandelbrotLoop rnd (opt_burningShip opts) pwr constant maxIter 0 z of
           Some i \<Rightarrow> real i
         | None \<Rightarrow> maxIter)"

text \<open>
  The loop of \<open>smoothIteration\<close>. At \<open>power = 1\<close> the source divides by \<open>Math.log(1) = 0\<close>
  and its result is not finite; the model has no such value, and no theorem below uses
  the division by zero.
\<close>

definition smoothCount_js :: "rounding \<Rightarrow> real \<Rightarrow> nat \<Rightarrow> real \<Rightarrow> real" where
  "smoothCount_js rnd pwr i magSq =
     (let log_zn = rnd (rnd (ln magSq) / 2);
          nu = rnd (rnd (ln (rnd (log_zn / rnd (ln pwr)))) / rnd (ln pwr))
      in rnd (rnd (real i + 1) - nu))"

function smoothLoop :: "rounding \<Rightarrow> real \<Rightarrow> vec2 \<Rightarrow> real \<Rightarrow> nat \<Rightarrow> vec2 \<Rightarrow> real option" where
  "smoothLoop rnd pwr c maxIter i z =
     (if real i < maxIter then
        let z = complexAdd rnd (complexPower_js rnd z pwr) c;
            magSq = magnitudeSquared rnd z
        in if 256 < magSq then Some (smoothCount_js rnd pwr i magSq)
           else smoothLoop rnd pwr c maxIter (Suc i) z
      else None)"
  by pat_completeness auto
termination
  apply (relation "measure (\<lambda>(rnd, p, c, maxIter, i, z). nat \<lceil>maxIter\<rceil> - i)")
   apply simp
  apply simp
  apply linarith
  done

declare smoothLoop.simps [simp del]

definition smoothIteration :: "rounding \<Rightarrow> vec2 \<Rightarrow> real \<Rightarrow> real \<Rightarrow> real" where
  "smoothIteration rnd c maxIter pwr =
     (case smoothLoop rnd pwr c maxIter 0 (0, 0) of Some r \<Rightarrow> r | None \<Rightarrow> maxIter)"

subsection \<open>FractalState\<close>

text \<open>
  The state object, and an object of changes in which every key may be absent. The
  listeners and the undo history of the class take no part in what is stored.
\<close>

record state =
  st_centerX :: real
  st_centerY :: real
  st_zoom :: real
  st_power :: real
  st_maxIter :: real
  st_numberBase :: real
  st_colorScheme :: real
  st_colorOffset :: real
  st_burningShip :: bool
  st_juliaMode :: bool
  st_juliaC :: "real list"
  st_width :: real
  st_height :: real
  st_coloringMode :: "real option"

record changes =
  ch_centerX :: "real option"
  ch_centerY :: "real option"
  ch_zoom :: "real option"
  ch_power :: "real option"
  ch_maxIter :: "real option"
  ch_numberBase :: "real option"
  ch_colorScheme :: "real option"
  ch_colorOffset :: "real option"
  ch_burningShip :: "bool option"
  ch_juliaMode :: "bool option"
  ch_juliaC :: "real list option"
  ch_width :: "real option"
  ch_height :: "real option"
  ch_coloringMode :: "real option"

definition noChanges :: changes where
  "noChanges =
     \<lparr>ch_centerX = None, ch_centerY = None, ch_zoom = None, ch_power = None,
      ch_maxIter = None, ch_numberBase = None, ch_colorScheme = None, ch_colorOffset = None,
      ch_burningShip = None, ch_juliaMode = None, ch_juliaC = None, ch_width = None,
      ch_height = None, ch_coloringMode = None\<rparr>"

definition DEFAULT_STATE :: state where
  "DEFAULT_STATE =
     \<lparr>st_centerX = - (1 / 2), st_centerY = 0, st_zoom = 1, st_power = 2, st_maxIter = 256, st_numberBase = 10,
      st_colorScheme = 3, st_colorOffset = 0, st_burningShip = False, st_juliaMode = False,
      st_juliaC = [- (2 / 5), 3 / 5], st_width = 1200, st_height = 900, st_coloringMode = None\<rparr>"

text \<open>The remainder operator \<open>%\<close> of JavaScript: the sign of the dividend, no rounding.\<close>

definition js_rem :: "real \<Rightarrow> real \<Rightarrow> real" where
  "js_rem a b = (let q = a / b in a - b * of_int (if 0 \<le> q then \<lfloor>q\<rfloor> else \<lceil>q\<rceil>))"

definition validateChanges :: "rounding \<Rightarrow> changes \<Rightarrow> changes" where
  "validateChanges rnd ch =
     ch\<lparr>ch_power := map_option (\<lambda>v. max 1 (min 12 v)) (ch_power ch),
        ch_maxIter := map_option (\<lambda>v. max 10 (min 10000 (of_int \<lfloor>v\<rfloor>))) (ch_maxIter ch),
        ch_zoom := map_option (\<lambda>v. max (rnd (1 / 10)) (min 1000000000000000 v)) (ch_zoom ch),
        ch_numberBase := map_option (\<lambda>v. max 2 (min 60 (of_int \<lfloor>v\<rfloor>))) (ch_numberBase ch),
        ch_colorScheme := map_option (\<lambda>v. max 0 (min 7 (of_int \<lfloor>v\<rfloor>))) (ch_colorScheme ch),
        ch_colorOffset :=
          map_option (\<lambda>v. js_rem (rnd (js_rem v 100 + 100)) 100) (ch_colorOffset ch),
        ch_juliaC :=
          (case ch_juliaC ch of
             None \<Rightarrow> None
           | Some xs \<Rightarrow> if length xs \<noteq> 2 then None else Some xs)\<rparr>"

definition differs :: "'a \<Rightarrow> 'a option \<Rightarrow> bool" where
  "differs old new = (case new of None \<Rightarrow> False | Some v \<Rightarrow> old \<noteq> v)"

definition hasChanges :: "state \<Rightarrow> changes \<Rightarrow> bool" where
  "hasChanges st ch \<longleftrightarrow>
     differs (st_centerX st) (ch_centerX ch) \<or> differs (st_centerY st) (ch_centerY ch)
     \<or> differs (st_zoom st) (ch_zoom ch) \<or> differs (st_power st) (ch_power ch)
     \<or> differs (st_maxIter st) (ch_maxIter ch) \<or> differs (st_numberBase st) (ch_numberBase ch)
     \<or> differs (st_colorScheme st) (ch_colorScheme ch)
     \<or> differs (st_colorOffset st) (ch_colorOffset ch)
     \<or> differs (st_burningShip st) (ch_burningShip ch)
     \<or> differs (st_juliaMode st) (ch_juliaMode ch) \<or> differs (st_juliaC st) (ch_juliaC ch)
     \<or> differs (st_width st) (ch_width ch) \<or> differs (st_height st) (ch_height ch)
     \<or> (case ch_coloringMode ch of None \<Rightarrow> False | Some v \<Rightarrow> st_coloringMode st \<noteq> Some v)"

definition keep :: "'a \<Rightarrow> 'a option \<Rightarrow> 'a" where
  "keep old new = (case new of None \<Rightarrow> old | Some v \<Rightarrow> v)"

definition applyChanges :: "state \<Rightarrow> changes \<Rightarrow> state" where
  "applyChanges st ch =
     \<lparr>st_centerX = keep (st_centerX st) (ch_centerX ch), st_centerY = keep (st_centerY st) (ch_centerY ch),
      st_zoom = keep (st_zoom st) (ch_zoom ch), st_power = keep (st_power st) (ch_power ch),
      st_maxIter = keep (st_maxIter st) (ch_maxIter ch),
      st_numberBase = keep (st_numberBase st) (ch_numberBase ch),
      st_colorScheme = keep (st_colorScheme st) (ch_colorScheme ch),
      st_colorOffset = keep (st_colorOffset st) (ch_colorOffset ch),
      st_burningShip = keep (st_burningShip st) (ch_burningShip ch),
      st_juliaMode = keep (st_juliaMode st) (ch_juliaMode ch),
      st_juliaC = keep (st_juliaC st) (ch_juliaC ch),
      st_width = keep (st_width st) (ch_width ch), st_height = keep (st_height st) (ch_height ch),
      st_coloringMode =
        (case ch_coloringMode ch of None \<Rightarrow> st_coloringMode st | Some v \<Rightarrow> Some v)\<rparr>"

definition update :: "rounding \<Rightarrow> state \<Rightarrow> changes \<Rightarrow> state" where
  "update rnd st ch =
     (let validatedChanges = validateChanges rnd ch
      in if \<not> hasChanges st validatedChanges then st
         else applyChanges st validatedChanges)"

subsection \<open>The renderer's \<open>updateUniforms\<close>\<close>

definition splitDouble :: "rounding \<Rightarrow> real \<Rightarrow> vec2" where
  "splitDouble rnd v = (let hi = v; lo = rnd (v - hi) in (hi, lo))"

text \<open>
  \<open>hrnd\<close> is the rounding of the host's numbers, \<open>rnd\<close> that of the shader's \<open>float\<close>, to
  which \<open>gl.uniform1f\<close> and \<open>gl.uniform2f\<close> convert their arguments. An element of
  \<open>juliaC\<close> that the array lacks is uploaded as \<open>undefined\<close>; \<open>elem\<close> gives it the value of
  the parameter \<open>undef\<close>.
\<close>

definition elem :: "real \<Rightarrow> real list \<Rightarrow> nat \<Rightarrow> real" where
  "elem undef xs i = (if i < length xs then xs ! i else undef)"

definition updateUniforms :: "rounding \<Rightarrow> rounding \<Rightarrow> real \<Rightarrow> state \<Rightarrow> uniforms" where
  "updateUniforms hrnd rnd undef st =
     (let (centerXHi, centerXLo) = splitDouble hrnd (st_centerX st);
          (centerYHi, centerYLo) = splitDouble hrnd (st_centerY st);
          useDoublePrecision = (if 1000000 < st_zoom st then 1 else 0)
      in \<lparr>u_resolution = (rnd (st_width st), rnd (st_height st)),
          u_center = (rnd centerXHi, rnd centerYHi),
          u_centerLow = (rnd centerXLo, rnd centerYLo),
          u_zoom = rnd (st_zoom st),
          u_power = rnd (st_power st),
          u_maxIter = rnd (st_maxIter st),
          u_base = rnd (st_numberBase st),
          u_colorScheme = rnd (st_colorScheme st),
          u_colorOffset = rnd (st_colorOffset st),
          u_burningShip = (if st_burningShip st then 1 else 0),
          u_juliaMode = (if st_juliaMode st then 1 else 0),
          u_juliaC = (rnd (elem undef (st_juliaC st) 0), rnd (elem undef (st_juliaC st) 1)),
          u_coloringMode =
            (case st_coloringMode st of
               None \<Rightarrow> 0
             | Some m \<Rightarrow> if m = 0 then 0 else rnd m),
          u_useDoublePrecision = useDoublePrecision\<rparr>)"

section \<open>Inputs used by the closed theorems\<close>

text \<open>Exact arithmetic: the format that rounds nothing.\<close>

definition exact :: rounding where
  "exact x = x"

text \<open>A frame zoomed past the threshold, with a power close to 2 but not 2.\<close>

definition deepZoomNearSquare :: state where
  "deepZoomNearSquare = DEFAULT_STATE\<lparr>st_zoom := 2000000, st_power := 257 / 128\<rparr>"

text \<open>A frame zoomed past the threshold, all other fields at their defaults.\<close>

definition deepZoom :: state where
  "deepZoom = DEFAULT_STATE\<lparr>st_zoom := 2000000\<rparr>"

text \<open>
  The default state after an update that asks for the largest iteration cap the
  validation lets through, centred on the origin.
\<close>

definition maxIter10000 :: state where
  "maxIter10000 =
     update binary64 DEFAULT_STATE (noChanges\<lparr>ch_centerX := Some 0, ch_maxIter := Some 10000\<rparr>)"

text \<open>A frame of the cubic set \<open>z\<^sup>3 + c\<close>, centred on the point \<open>(20, 0)\<close> far outside it.\<close>

definition cubicFarPoint :: state where
  "cubicFarPoint = DEFAULT_STATE\<lparr>st_centerX := 20, st_power := 3\<rparr>"

section \<open>Evaluation of the rounding operators\<close>

lemmas rounding_defs =
  round_nearest_even_def exponent_of_def pow2_def round_half_even_def bit_length.simps
  Let_def binary32_def binary64_def

lemma binary32_zero: "binary32 0 = 0"
  by (simp add: binary32_def round_nearest_even_def)

lemma binary64_zero: "binary64 0 = 0"
  by (simp add: binary64_def round_nearest_even_def)

section \<open>The coordinate splitter\<close>

lemma splitDouble_low: "rnd 0 = 0 \<Longrightarrow> splitDouble rnd v = (v, 0)"
  by (simp add: splitDouble_def)

text \<open>
  Claim C3. The splitter is to return \<open>hi = v\<close> and a \<open>lo\<close> that holds what the
  conversion of \<open>v\<close> to the shader's precision drops. The code computes \<open>lo = v - hi\<close>
  with \<open>hi = v\<close> still at host precision, so \<open>lo\<close> is zero: for the host value
  \<open>v = 1 + 2\<^sup>-\<^sup>3\<^sup>0\<close> the low part is 0, while the conversion to 24 significant bits drops
  \<open>2\<^sup>-\<^sup>3\<^sup>0\<close>.
\<close>

theorem splitDouble_low_part_zero:
  "snd (splitDouble binary64 (1 + 1 / 2 ^ 30)) = 0
   \<and> (1 + 1 / 2 ^ 30) - binary32 (1 + 1 / 2 ^ 30) = 1 / 2 ^ 30"
  by (simp add: splitDouble_def rounding_defs)

section \<open>The precision switch\<close>

text \<open>
  Claim C4, as stated: the double-double path runs exactly when \<open>zoom > 10\<^sup>6\<close>, the power
  is 2, and neither Julia mode nor Burning Ship is on. It fails for a power near 2: at
  zoom \<open>2000000\<close> and power \<open>2.0078125\<close> the shader takes the double-double path.
\<close>

theorem precision_switch_power_counterexample:
  "\<not> (useDoubleDouble binary32 (updateUniforms binary64 binary32 0 deepZoomNearSquare)
        \<longleftrightarrow> 1000000 < st_zoom deepZoomNearSquare \<and> st_power deepZoomNearSquare = 2
            \<and> \<not> st_juliaMode deepZoomNearSquare \<and> \<not> st_burningShip deepZoomNearSquare)"
  by (simp add: deepZoomNearSquare_def DEFAULT_STATE_def useDoubleDouble_def updateUniforms_def
      splitDouble_def rounding_defs)

text \<open>
  Claim C4, amended: for every frame, the double-double path runs exactly when
  \<open>zoom > 10\<^sup>6\<close> on the host, the uploaded power passes the shader's test
  \<open>abs(u_power - 2.0) < 0.01\<close>, and neither Julia mode nor Burning Ship is on; the
  standard path runs otherwise. The comparison with \<open>10\<^sup>6\<close> is strict, so a zoom at or
  below it selects the standard path and any zoom above it the double-double path.
\<close>

theorem precision_switch_condition:
  "useDoubleDouble rnd (updateUniforms hrnd rnd undef st)
   \<longleftrightarrow> 1000000 < st_zoom st \<and> \<bar>rnd (rnd (st_power st) - 2)\<bar> < rnd (1 / 100)
       \<and> \<not> st_juliaMode st \<and> \<not> st_burningShip st"
  by (simp add: useDoubleDouble_def updateUniforms_def splitDouble_def Let_def)

section \<open>The escape-time iteration of the host\<close>

lemma complexPower_js_origin: "rnd 0 = 0 \<Longrightarrow> complexPower_js rnd (0, 0) n = (0, 0)"
  by (simp add: complexPower_js_def Let_def)

lemma mandelbrotLoop_origin:
  assumes "rnd 0 = 0"
  shows "mandelbrotLoop rnd b p (0, 0) maxIter i (0, 0) = None"
proof (induction "nat \<lceil>maxIter\<rceil> - i" arbitrary: i)
  case 0
  then have "\<not> real i < maxIter"
    by linarith
  then show ?case
    by (simp add: mandelbrotLoop.simps)
next
  case (Suc k)
  show ?case
  proof (cases "real i < maxIter")
    case False
    then show ?thesis
      by (simp add: mandelbrotLoop.simps)
  next
    case True
    have "k = nat \<lceil>maxIter\<rceil> - Suc i"
      using Suc.hyps(2) by simp
    then have IH: "mandelbrotLoop rnd b p (0, 0) maxIter (Suc i) (0, 0) = None"
      by (rule Suc.hyps(1))
    have step: "complexAdd rnd (complexPower_js rnd (0, 0) p) (0, 0) = (0, 0)"
      using assms by (simp add: complexPower_js_origin complexAdd_def)
    have mag: "magnitudeSquared rnd (0, 0) = 0"
      using assms by (simp add: magnitudeSquared_def)
    from True IH show ?thesis
      by (subst mandelbrotLoop.simps) (cases b; simp add: Let_def step mag)
  qed
qed

text \<open>
  Claim C7. For \<open>c = (0, 0)\<close> and every \<open>maxIterations \<ge> 1\<close>, the loop of
  \<open>mandelbrotIteration([0, 0], maxIterations, 2)\<close> runs to its end without the escape test
  succeeding, and the function returns \<open>maxIterations\<close>. This holds in every format that
  represents zero.
\<close>

theorem origin_never_escapes:
  assumes "rnd 0 = 0" and "1 \<le> maxIter"
  shows "mandelbrotLoop rnd False 2 (0, 0) maxIter 0 (0, 0) = None
     \<and> mandelbrotIteration rnd (0, 0) maxIter 2 defaultOptions = maxIter"
  using assms by (simp add: mandelbrotIteration_def defaultOptions_def mandelbrotLoop_origin)

theorem origin_never_escapes_witness:
  "binary64 0 = 0 \<and> (1::real) \<le> 100
   \<and> mandelbrotLoop binary64 False 2 (0, 0) 100 0 (0, 0) = None
   \<and> mandelbrotIteration binary64 (0, 0) 100 2 defaultOptions = 100"
  using binary64_zero origin_never_escapes [of binary64 100] by simp

text \<open>
  The orbit of the fixture point \<open>c = (0.5, 0.5)\<close> at power 2 in 64-bit arithmetic, one
  step of the loop at a time. Every value is a dyadic number of a few bits and is not
  changed by the rounding.
\<close>

lemmas ComplexMath_defs = complexAdd_def complexPower_js_def magnitudeSquared_def

lemma fixture_z1:
  "complexAdd binary64 (complexPower_js binary64 (0, 0) 2) (1 / 2, 1 / 2) = (1 / 2, 1 / 2)"
  by (simp add: ComplexMath_defs rounding_defs)

lemma fixture_z2:
  "complexAdd binary64 (complexPower_js binary64 (1 / 2, 1 / 2) 2) (1 / 2, 1 / 2) = (1 / 2, 1)"
  by (simp add: ComplexMath_defs rounding_defs)

lemma fixture_z3:
  "complexAdd binary64 (complexPower_js binary64 (1 / 2, 1) 2) (1 / 2, 1 / 2) = (- (1 / 4), 3 / 2)"
  by (simp add: ComplexMath_defs rounding_defs)

lemma fixture_z4:
  "complexAdd binary64 (complexPower_js binary64 (- (1 / 4), 3 / 2) 2) (1 / 2, 1 / 2)
     = (- (27 / 16), - (1 / 4))"
  by (simp add: ComplexMath_defs rounding_defs)

lemma fixture_z5:
  "complexAdd binary64 (complexPower_js binary64 (- (27 / 16), - (1 / 4)) 2) (1 / 2, 1 / 2)
     = (841 / 256, 43 / 32)"
  by (simp add: ComplexMath_defs rounding_defs)

lemma fixture_z4_abs:
  "complexAdd binary64 (complexPower_js binary64 (1 / 4, 3 / 2) 2) (1 / 2, 1 / 2)
     = (- (27 / 16), 5 / 4)"
  by (simp add: ComplexMath_defs rounding_defs)

lemma fixture_m1: "magnitudeSquared binary64 (1 / 2, 1 / 2) = 1 / 2"
  by (simp add: ComplexMath_defs rounding_defs)

lemma fixture_m2: "magnitudeSquared binary64 (1 / 2, 1) = 5 / 4"
  by (simp add: ComplexMath_defs rounding_defs)

lemma fixture_m3: "magnitudeSquared binary64 (- (1 / 4), 3 / 2) = 37 / 16"
  by (simp add: ComplexMath_defs rounding_defs)

lemma fixture_m4: "magnitudeSquared binary64 (- (27 / 16), - (1 / 4)) = 745 / 256"
  by (simp add: ComplexMath_defs rounding_defs)

lemma fixture_m5: "magnitudeSquared binary64 (841 / 256, 43 / 32) = 825617 / 65536"
  by (simp add: ComplexMath_defs rounding_defs)

lemma fixture_m4_abs: "magnitudeSquared binary64 (- (27 / 16), 5 / 4) = 1129 / 256"
  by (simp add: ComplexMath_defs rounding_defs)

lemmas fixture_steps =
  fixture_z1 fixture_z2 fixture_z3 fixture_z4 fixture_z5 fixture_z4_abs
  fixture_m1 fixture_m2 fixture_m3 fixture_m4 fixture_m5 fixture_m4_abs

lemma fixture_standard: "mandelbrotLoop binary64 False 2 (1 / 2, 1 / 2) 100 0 (0, 0) = Some 4"
  by (simp add: mandelbrotLoop.simps [of _ _ _ _ 100] Let_def fixture_steps)

lemma fixture_burningShip: "mandelbrotLoop binary64 True 2 (1 / 2, 1 / 2) 100 0 (0, 0) = Some 3"
  by (simp add: mandelbrotLoop.simps [of _ _ _ _ 100] Let_def fixture_steps)

text \<open>
  Claim C8. At \<open>c = (0.5, 0.5)\<close>, power 2 and \<open>maxIterations = 100\<close>, the count that
  \<open>mandelbrotIteration\<close> returns with the Burning Ship step (3) differs from the count
  of the standard iteration (4).
\<close>

theorem burning_ship_fixture_differs:
  "mandelbrotIteration binary64 (1 / 2, 1 / 2) 100 2 (defaultOptions\<lparr>opt_burningShip := True\<rparr>)
     \<noteq> mandelbrotIteration binary64 (1 / 2, 1 / 2) 100 2 defaultOptions"
  by (simp add: mandelbrotIteration_def defaultOptions_def fixture_standard fixture_burningShip)

section \<open>The stored color scheme\<close>

lemma update_colorScheme_at_most_7:
  "st_colorScheme st \<le> 7
   \<Longrightarrow> st_colorScheme (update rnd st ch) \<le> 7"
  by (cases "ch_colorScheme ch")
     (simp_all add: update_def validateChanges_def applyChanges_def keep_def Let_def)

text \<open>
  Claim C9. Updating the state with a color scheme id from 0 to 19 is to store that id.
  The validation clamps the id to \<open>[0, 7]\<close>: an update of the default state with scheme
  12 stores 7, so the schemes 8 to 19 of the shader cannot be selected through \<open>update\<close>.
\<close>

theorem update_colorScheme_12_stores_7:
  "st_colorScheme (update rnd DEFAULT_STATE (noChanges\<lparr>ch_colorScheme := Some 12\<rparr>)) = 7"
  by (simp add: update_def validateChanges_def hasChanges_def applyChanges_def differs_def
      keep_def DEFAULT_STATE_def noChanges_def)

section \<open>The derivative in the double-double path\<close>

lemma orbitTrap_dz: "loc_dz (orbitTrap rnd l) = loc_dz l"
  by (simp add: orbitTrap_def Let_def)

lemma ddStep_dz: "loc_dz (ddStep rnd cxDD cyDD l) = loc_dz l"
  by (simp add: ddStep_def orbitTrap_dz Let_def split: prod.splits)

lemma ddLoop_dz: "loc_dz (snd (snd (ddLoop rnd u cxDD cyDD i l))) = loc_dz l"
proof (induction rnd u cxDD cyDD i l rule: ddLoop.induct)
  case (1 rnd u cxDD cyDD i l)
  let ?l = "ddStep rnd cxDD cyDD l"
  show ?case
  proof (cases "i < 2000 \<and> \<not> u_maxIter u \<le> real i
      \<and> \<not> 256 < glsl_dot rnd (loc_z ?l) (loc_z ?l)")
    case True
    then have "loc_dz (snd (snd (ddLoop rnd u cxDD cyDD (Suc i) (?l\<lparr>loc_iterations := real i\<rparr>))))
        = loc_dz (?l\<lparr>loc_iterations := real i\<rparr>)"
      by (intro "1.IH") auto
    with True show ?thesis
      by (subst ddLoop.simps) (simp add: Let_def ddStep_dz)
  next
    case False
    then show ?thesis
      by (subst ddLoop.simps) (auto simp: Let_def ddStep_dz)
  qed
qed

lemma deepZoom_useDoubleDouble:
  "useDoubleDouble binary32 (updateUniforms binary64 binary32 0 deepZoom)"
  by (simp add: deepZoom_def DEFAULT_STATE_def useDoubleDouble_def updateUniforms_def
      splitDouble_def rounding_defs)

text \<open>
  Claim C10. In the double-double path the derivative accumulator \<open>dz\<close> is never
  written: a step of the loop leaves it as it is, and for every pixel rendered through
  that path it still holds its initial value \<open>(1, 0)\<close> when the loop has ended. The
  distance estimate then divides by \<open>length(dz)\<close>, the length of \<open>(1, 0)\<close>.
\<close>

theorem dd_path_never_updates_dz:
  assumes "useDoubleDouble rnd u"
  shows "loc_dz (ddStep rnd cxDD cyDD l) = loc_dz l
     \<and> loc_dz (snd (snd (iterate rnd u fragCoord zInit))) = (1, 0)
     \<and> glsl_length rnd (loc_dz (snd (snd (iterate rnd u fragCoord zInit)))) = rnd 1"
  using assms
  by (simp add: ddStep_dz iterate_def Let_def ddLoop_dz initLocals_def glsl_length_def)

theorem dd_path_never_updates_dz_witness:
  "useDoubleDouble binary32 (updateUniforms binary64 binary32 0 deepZoom)
   \<and> loc_dz (ddStep binary32 (0, 0) (0, 0) (initLocals (0, 0))) = loc_dz (initLocals (0, 0))
   \<and> loc_dz (snd (snd (iterate binary32 (updateUniforms binary64 binary32 0 deepZoom)
        (600, 450) (0, 0)))) = (1, 0)
   \<and> glsl_length binary32 (loc_dz (snd (snd (iterate binary32
        (updateUniforms binary64 binary32 0 deepZoom) (600, 450) (0, 0))))) = binary32 1"
  using deepZoom_useDoubleDouble
    dd_path_never_updates_dz [OF deepZoom_useDoubleDouble,
      of "(0, 0)" "(0, 0)" "initLocals (0, 0)" "(600, 450)" "(0, 0)"]
  by (simp add: glsl_length_def)

section \<open>The iteration cap of the shader\<close>

text \<open>
  Both loops are total. When \<open>u_maxIter\<close> holds the whole number \<open>cap\<close>, a loop performs
  at most \<open>cap\<close> steps and at most 2000 steps.
\<close>

lemma stdLoop_steps:
  "i \<le> 2000 \<Longrightarrow> u_maxIter u = real cap \<Longrightarrow> i \<le> cap \<Longrightarrow>
    fst (snd (stdLoop rnd u c i l)) \<le> 2000 \<and> fst (snd (stdLoop rnd u c i l)) \<le> cap"
proof (induction rnd u c i l rule: stdLoop.induct)
  case (1 rnd u c i l)
  let ?l = "stdStep rnd u c l"
  show ?case
  proof (cases "i < 2000 \<and> \<not> u_maxIter u \<le> real i")
    case False
    then have "fst (snd (stdLoop rnd u c i l)) = i"
      by (subst stdLoop.simps) auto
    with "1.prems" show ?thesis
      by simp
  next
    case True
    with "1.prems" have next_ok: "Suc i \<le> 2000" "Suc i \<le> cap"
      by simp_all
    show ?thesis
    proof (cases "256 < glsl_dot rnd (loc_z ?l) (loc_z ?l)")
      case esc: True
      with True have "fst (snd (stdLoop rnd u c i l)) = Suc i"
        by (subst stdLoop.simps) (simp add: Let_def)
      with next_ok show ?thesis
        by simp
    next
      case esc: False
      let ?next = "stdLoop rnd u c (Suc i) (?l\<lparr>loc_iterations := real i\<rparr>)"
      from True have "fst (snd ?next) \<le> 2000 \<and> fst (snd ?next) \<le> cap"
        using esc next_ok "1.prems"(2) by (intro "1.IH") simp_all
      moreover from True esc have "stdLoop rnd u c i l = ?next"
        by (subst stdLoop.simps) (simp add: Let_def)
      ultimately show ?thesis
        by simp
    qed
  qed
qed

lemma ddLoop_steps:
  "i \<le> 2000 \<Longrightarrow> u_maxIter u = real cap \<Longrightarrow> i \<le> cap \<Longrightarrow>
    fst (snd (ddLoop rnd u cxDD cyDD i l)) \<le> 2000
    \<and> fst (snd (ddLoop rnd u cxDD cyDD i l)) \<le> cap"
proof (induction rnd u cxDD cyDD i l rule: ddLoop.induct)
  case (1 rnd u cxDD cyDD i l)
  let ?l = "ddStep rnd cxDD cyDD l"
  show ?case
  proof (cases "i < 2000 \<and> \<not> u_maxIter u \<le> real i")
    case False
    then have "fst (snd (ddLoop rnd u cxDD cyDD i l)) = i"
      by (subst ddLoop.simps) auto
    with "1.prems" show ?thesis
      by simp
  next
    case True
    with "1.prems" have next_ok: "Suc i \<le> 2000" "Suc i \<le> cap"
      by simp_all
    show ?thesis
    proof (cases "256 < glsl_dot rnd (loc_z ?l) (loc_z ?l)")
      case esc: True
      with True have "fst (snd (ddLoop rnd u cxDD cyDD i l)) = Suc i"
        by (subst ddLoop.simps) (simp add: Let_def)
      with next_ok show ?thesis
        by simp
    next
      case esc: False
      let ?next = "ddLoop rnd u cxDD cyDD (Suc i) (?l\<lparr>loc_iterations := real i\<rparr>)"
      from True have "fst (snd ?next) \<le> 2000 \<and> fst (snd ?next) \<le> cap"
        using esc next_ok "1.prems"(2) by (intro "1.IH") simp_all
      moreover from True esc have "ddLoop rnd u cxDD cyDD i l = ?next"
        by (subst ddLoop.simps) (simp add: Let_def)
      ultimately show ?thesis
        by simp
    qed
  qed
qed

lemma iterate_steps:
  assumes "u_maxIter u = real cap"
  shows "fst (snd (iterate rnd u fragCoord zInit)) \<le> 2000
     \<and> fst (snd (iterate rnd u fragCoord zInit)) \<le> cap"
proof -
  have std: "fst (snd (stdLoop rnd u c 0 l)) \<le> 2000 \<and> fst (snd (stdLoop rnd u c 0 l)) \<le> cap"
    for c l
    using assms by (intro stdLoop_steps) simp_all
  have dd: "fst (snd (ddLoop rnd u cx cy 0 l)) \<le> 2000 \<and> fst (snd (ddLoop rnd u cx cy 0 l)) \<le> cap"
    for cx cy l
    using assms by (intro ddLoop_steps) simp_all
  show ?thesis
    unfolding iterate_def Let_def by (simp add: std dd)
qed

lemma complexPower_origin: "rnd 0 = 0 \<Longrightarrow> complexPower rnd (0, 0) n = (0, 0)"
  by (simp add: complexPower_def glsl_length_def glsl_atan_def glsl_pow_def atan2_def Let_def)

lemma stdStep_origin:
  assumes "rnd 0 = 0" and "loc_z l = (0, 0)"
  shows "loc_z (stdStep rnd u (0, 0) l) = (0, 0)"
  using assms by (simp add: stdStep_def orbitTrap_def complexPower_origin Let_def)

text \<open>
  With a cap of 2000 or more, the standard loop at \<open>c = (0, 0)\<close> never escapes and never
  takes the early exit: it ends by its structural bound.
\<close>

lemma stdLoop_origin:
  assumes "rnd 0 = 0" and "2000 \<le> u_maxIter u"
  shows "loc_z l = (0, 0) \<Longrightarrow> i \<le> 2000 \<Longrightarrow>
    fst (stdLoop rnd u (0, 0) i l) = BoundReached
    \<and> fst (snd (stdLoop rnd u (0, 0) i l)) = 2000
    \<and> (i < 2000 \<longrightarrow> loc_iterations (snd (snd (stdLoop rnd u (0, 0) i l))) = 1999)"
proof (induction "2000 - i" arbitrary: i l)
  case 0
  then have "i = 2000"
    by simp
  then show ?case
    by (simp add: stdLoop.simps)
next
  case (Suc k)
  let ?l = "stdStep rnd u (0, 0) l"
  let ?next = "stdLoop rnd u (0, 0) (Suc i) (?l\<lparr>loc_iterations := real i\<rparr>)"
  from Suc.hyps(2) have i: "i < 2000"
    by simp
  with assms(2) have cap: "\<not> u_maxIter u \<le> real i"
    by simp
  have z: "loc_z ?l = (0, 0)"
    using assms(1) Suc.prems(1) by (rule stdStep_origin)
  then have esc: "\<not> 256 < glsl_dot rnd (loc_z ?l) (loc_z ?l)"
    using assms(1) by (simp add: glsl_dot_def)
  have unfold: "stdLoop rnd u (0, 0) i l = ?next"
    using i cap esc by (subst stdLoop.simps) (simp add: Let_def)
  have k: "k = 2000 - Suc i"
    using Suc.hyps(2) by simp
  have IH: "fst ?next = BoundReached \<and> fst (snd ?next) = 2000
    \<and> (Suc i < 2000 \<longrightarrow> loc_iterations (snd (snd ?next)) = 1999)"
    using i z by (intro Suc.hyps(1) k) simp_all
  show ?case
  proof (cases "Suc i < 2000")
    case True
    with IH unfold show ?thesis
      by simp
  next
    case False
    with i have last: "Suc i = 2000"
      by simp
    have "?next = (BoundReached, 2000, ?l\<lparr>loc_iterations := real i\<rparr>)"
      by (subst stdLoop.simps) (simp add: last)
    with unfold last show ?thesis
      by simp
  qed
qed

lemma maxIter10000_fields:
  "st_maxIter maxIter10000 = 10000" "st_centerX maxIter10000 = 0" "st_centerY maxIter10000 = 0"
  "st_zoom maxIter10000 = 1" "st_width maxIter10000 = 1200" "st_height maxIter10000 = 900"
  "st_juliaMode maxIter10000 = False" "st_burningShip maxIter10000 = False"
  "st_power maxIter10000 = 2"
  by (simp_all add: maxIter10000_def update_def validateChanges_def hasChanges_def
      applyChanges_def differs_def keep_def DEFAULT_STATE_def noChanges_def)

lemma maxIter10000_uniforms:
  "u_maxIter (updateUniforms binary64 binary32 0 maxIter10000) = 10000"
  "u_center (updateUniforms binary64 binary32 0 maxIter10000) = (0, 0)"
  "u_zoom (updateUniforms binary64 binary32 0 maxIter10000) = 1"
  "u_resolution (updateUniforms binary64 binary32 0 maxIter10000) = (1200, 900)"
  "u_juliaMode (updateUniforms binary64 binary32 0 maxIter10000) = 0"
  "u_useDoublePrecision (updateUniforms binary64 binary32 0 maxIter10000) = 0"
  by (simp_all add: updateUniforms_def splitDouble_def maxIter10000_fields rounding_defs)

lemma maxIter10000_uv:
  "pixel_uv binary32 (updateUniforms binary64 binary32 0 maxIter10000) (600, 450) = (0, 0)"
  by (simp only: pixel_uv_def maxIter10000_uniforms Let_def fst_conv snd_conv)
     (simp add: rounding_defs)

text \<open>
  Claim C6. For every configured \<open>maxIterations\<close> in \<open>[10, 10000]\<close> the loop is to end
  after at most \<open>maxIterations\<close> steps, stopped by the check against the configured
  maximum and not by the structural bound. With the cap 10000, which the validation
  lets through, the centre pixel of a frame centred on the origin runs 2000 steps and is
  stopped by the structural bound \<open>i < 2000\<close>; the check \<open>float(i) >= u_maxIter\<close> never
  succeeds, and \<open>iterations\<close> is left at 1999.
\<close>

theorem structural_bound_stops_loop_at_2000:
  "u_maxIter (updateUniforms binary64 binary32 0 maxIter10000) = 10000
   \<and> fst (iterate binary32 (updateUniforms binary64 binary32 0 maxIter10000) (600, 450) (0, 0))
       = BoundReached
   \<and> fst (snd (iterate binary32 (updateUniforms binary64 binary32 0 maxIter10000)
         (600, 450) (0, 0))) = 2000
   \<and> loc_iterations (snd (snd (iterate binary32
         (updateUniforms binary64 binary32 0 maxIter10000) (600, 450) (0, 0)))) = 1999"
proof -
  let ?u = "updateUniforms binary64 binary32 0 maxIter10000"
  let ?l = "(initLocals (0, 0))\<lparr>loc_z := (0, 0)\<rparr>"
  have it: "iterate binary32 ?u (600, 450) (0, 0) = stdLoop binary32 ?u (0, 0) 0 ?l"
    by (simp add: iterate_def useDoubleDouble_def maxIter10000_uniforms maxIter10000_uv
        binary32_zero Let_def)
  have "fst (stdLoop binary32 ?u (0, 0) 0 ?l) = BoundReached
    \<and> fst (snd (stdLoop binary32 ?u (0, 0) 0 ?l)) = 2000
    \<and> ((0::nat) < 2000 \<longrightarrow> loc_iterations (snd (snd (stdLoop binary32 ?u (0, 0) 0 ?l))) = 1999)"
    by (rule stdLoop_origin) (simp_all add: binary32_zero maxIter10000_uniforms)
  then have "fst (stdLoop binary32 ?u (0, 0) 0 ?l) = BoundReached
    \<and> fst (snd (stdLoop binary32 ?u (0, 0) 0 ?l)) = 2000
    \<and> loc_iterations (snd (snd (stdLoop binary32 ?u (0, 0) 0 ?l))) = 1999"
    by simp
  then show ?thesis
    unfolding it using maxIter10000_uniforms(1) by blast
qed

section \<open>The smoothed iteration count\<close>

lemma smoothCount_exact: "smoothCount exact p i m = real i + 1 - ln (ln m / 2 / ln 2) / ln p"
  by (simp add: smoothCount_def glsl_log_def exact_def)

lemma smoothCount_js_exact:
  "smoothCount_js exact p i m = real i + 1 - ln (ln m / 2 / ln p) / ln p"
  by (simp add: smoothCount_js_def exact_def)

lemma cubicFarPoint_uniforms:
  "u_maxIter (updateUniforms exact exact 0 cubicFarPoint) = 256"
  "u_center (updateUniforms exact exact 0 cubicFarPoint) = (20, 0)"
  "u_zoom (updateUniforms exact exact 0 cubicFarPoint) = 1"
  "u_power (updateUniforms exact exact 0 cubicFarPoint) = 3"
  "u_resolution (updateUniforms exact exact 0 cubicFarPoint) = (1200, 900)"
  "u_juliaMode (updateUniforms exact exact 0 cubicFarPoint) = 0"
  "u_burningShip (updateUniforms exact exact 0 cubicFarPoint) = 0"
  "u_useDoublePrecision (updateUniforms exact exact 0 cubicFarPoint) = 0"
  by (simp_all add: updateUniforms_def splitDouble_def cubicFarPoint_def DEFAULT_STATE_def
      exact_def)

lemma cubicFarPoint_step:
  "loc_z (stdStep exact (updateUniforms exact exact 0 cubicFarPoint) (20, 0)
     ((initLocals (0, 0))\<lparr>loc_z := (0, 0)\<rparr>)) = (20, 0)"
  by (simp add: stdStep_def orbitTrap_def complexPower_origin cubicFarPoint_uniforms Let_def
      exact_def)

lemma cubicFarPoint_shader:
  "iterate exact (updateUniforms exact exact 0 cubicFarPoint) (600, 450) (0, 0)
   = (Escaped, 1,
      (stdStep exact (updateUniforms exact exact 0 cubicFarPoint) (20, 0)
         ((initLocals (0, 0))\<lparr>loc_z := (0, 0)\<rparr>))
      \<lparr>loc_iterations := 1 - ln (ln 400 / 2 / ln 2) / ln 3\<rparr>)"
proof -
  let ?u = "updateUniforms exact exact 0 cubicFarPoint"
  have uv: "pixel_uv exact ?u (600, 450) = (0, 0)"
    by (simp add: pixel_uv_def cubicFarPoint_uniforms exact_def)
  have it: "iterate exact ?u (600, 450) (0, 0)
      = stdLoop exact ?u (20, 0) 0 ((initLocals (0, 0))\<lparr>loc_z := (0, 0)\<rparr>)"
    by (simp add: iterate_def useDoubleDouble_def cubicFarPoint_uniforms uv Let_def exact_def)
  have dot: "glsl_dot exact (20, 0) (20, 0) = 400"
    by (simp add: glsl_dot_def exact_def)
  show ?thesis
    unfolding it
    by (subst stdLoop.simps)
       (simp add: Let_def cubicFarPoint_step cubicFarPoint_uniforms dot smoothCount_exact)
qed

lemma cubicFarPoint_host:
  "smoothIteration exact (20, 0) 256 3 = 1 - ln (ln 400 / 2 / ln 3) / ln 3"
proof -
  have z: "complexAdd exact (complexPower_js exact (0, 0) 3) (20, 0) = (20, 0)"
    by (simp add: complexAdd_def complexPower_js_origin exact_def)
  have m: "magnitudeSquared exact (20, 0) = 400"
    by (simp add: magnitudeSquared_def exact_def)
  have "smoothLoop exact 3 (20, 0) 256 0 (0, 0) = Some (smoothCount_js exact 3 0 400)"
    by (subst smoothLoop.simps) (simp add: Let_def z m)
  then show ?thesis
    by (simp add: smoothIteration_def smoothCount_js_exact)
qed

lemma inner_divisor_matters:
  "ln (ln 400 / 2 / ln 2) / ln 3 \<noteq> ln (ln 400 / 2 / ln 3) / (ln 3 :: real)"
proof
  assume eq: "ln (ln 400 / 2 / ln 2) / ln 3 = ln (ln 400 / 2 / ln 3) / (ln 3 :: real)"
  have l3: "0 < ln (3::real)"
    by simp
  have l2: "0 < ln (2::real)"
    by simp
  have a: "0 < ln (400::real) / 2"
    by simp
  from eq l3 have "ln (ln 400 / 2 / ln 2) = ln (ln 400 / 2 / ln (3::real))"
    by simp
  moreover have "0 < ln 400 / 2 / ln (2::real)" "0 < ln 400 / 2 / ln (3::real)"
    using a l2 l3 by simp_all
  ultimately have "ln 400 / 2 / ln 2 = ln 400 / 2 / ln (3::real)"
    by (simp only: ln_inj_iff)
  with a l2 l3 have "ln (2::real) = ln 3"
    by (simp add: field_simps)
  then show False
    by simp
qed

text \<open>
  Claim C5. When the escape test first succeeds in step \<open>i\<close>, the iteration is to return
  \<open>i + 1 - log(log(|z|\<^sup>2)/2 / log(power)) / log(power)\<close>. The host's \<open>smoothIteration\<close>
  computes this, the standard loop of the shader divides the inner logarithm by
  \<open>log(2.0)\<close> whatever the power. In exact arithmetic, at power 3 and \<open>c = (20, 0)\<close>, the
  escape test succeeds in step 0 with \<open>|z|\<^sup>2 = 400\<close>: the shader assigns
  \<open>1 - ln (ln 400 / 2 / ln 2) / ln 3\<close>, the host returns
  \<open>1 - ln (ln 400 / 2 / ln 3) / ln 3\<close>, and the two differ.
\<close>

theorem shader_smooth_count_divides_by_log_2:
  "loc_iterations (snd (snd (iterate exact (updateUniforms exact exact 0 cubicFarPoint)
       (600, 450) (0, 0)))) = 1 - ln (ln 400 / 2 / ln 2) / ln 3
   \<and> fst (iterate exact (updateUniforms exact exact 0 cubicFarPoint) (600, 450) (0, 0)) = Escaped
   \<and> smoothIteration exact (20, 0) 256 3 = 1 - ln (ln 400 / 2 / ln 3) / ln 3
   \<and> loc_iterations (snd (snd (iterate exact (updateUniforms exact exact 0 cubicFarPoint)
       (600, 450) (0, 0)))) \<noteq> smoothIteration exact (20, 0) 256 3"
proof -
  have "1 - ln (ln 400 / 2 / ln 2) / ln 3 \<noteq> 1 - ln (ln 400 / 2 / ln 3) / (ln 3 :: real)"
    using inner_divisor_matters by linarith
  then show ?thesis
    unfolding cubicFarPoint_shader cubicFarPoint_host by simp
qed

section \<open>Error-free addition\<close>

subsection \<open>Powers of two and representable numbers\<close>

lemma pow2_powr: "pow2 e = 2 powr real_of_int e"
proof (cases "0 \<le> e")
  case True
  then have "2 powr real_of_int e = 2 powr real (nat e)" by simp
  also have "\<dots> = 2 ^ nat e" by (simp add: powr_realpow)
  finally show ?thesis using True by (simp add: pow2_def)
next
  case False
  then have "real_of_int e = - real (nat (- e))" by simp
  then have "2 powr real_of_int e = 2 powr (- real (nat (- e)))" by (rule arg_cong)
  also have "\<dots> = 1 / 2 ^ nat (- e)" by (simp add: powr_minus_divide powr_realpow)
  finally show ?thesis using False by (simp add: pow2_def)
qed

lemma pow2_pos [simp]: "0 < pow2 e"
  by (simp add: pow2_powr)

lemma pow2_abs [simp]: "\<bar>pow2 e\<bar> = pow2 e"
  by (simp add: abs_of_pos)

lemma pow2_add: "pow2 (d + e) = pow2 d * pow2 e"
  by (simp add: pow2_powr powr_add)

lemma pow2_zero [simp]: "pow2 0 = 1"
  by (simp add: pow2_def)

lemma pow2_nat: "pow2 (int n) = 2 ^ n"
  by (simp add: pow2_def)

lemma pow2_mono: "d \<le> e \<Longrightarrow> pow2 d \<le> pow2 e"
  by (simp add: pow2_powr)

lemma pow2_less_iff: "pow2 d < pow2 e \<longleftrightarrow> d < e"
  by (simp add: pow2_powr)

lemma pow2_multiple: "d \<le> e \<Longrightarrow> pow2 e = of_int (2 ^ nat (e - d)) * pow2 d"
proof -
  assume "d \<le> e"
  then have "pow2 e = pow2 (int (nat (e - d)) + d)" by simp
  also have "\<dots> = 2 ^ nat (e - d) * pow2 d" by (simp only: pow2_add pow2_nat)
  finally show ?thesis by simp
qed

lemma representable_zero [simp]: "representable p 0"
  unfolding representable_def by (intro exI [of _ 0]) simp

lemma representable_minus: "representable p x \<Longrightarrow> representable p (- x)"
  unfolding representable_def
  by (elim exE conjE, rule_tac x = "- m" in exI, rule_tac x = e in exI) simp

lemma representable_minus_iff [simp]: "representable p (- x) \<longleftrightarrow> representable p x"
  using representable_minus [of p x] representable_minus [of p "- x"] by auto

lemma representable_scale: "representable p x \<Longrightarrow> representable p (x * pow2 k)"
  unfolding representable_def
  by (elim exE conjE, rule_tac x = m in exI, rule_tac x = "e + k" in exI) (simp add: pow2_add)

lemma representable_double: "representable p x \<Longrightarrow> representable p (2 * x)"
  using representable_scale [of p x 1] by (simp add: pow2_def mult.commute)

lemma representable_half: "representable p x \<Longrightarrow> representable p (x / 2)"
  using representable_scale [of p x "- 1"] by (simp add: pow2_def)

text \<open>A multiple of \<open>2^e\<close> below \<open>2^p * 2^e\<close> in magnitude is representable.\<close>

lemma representable_grid:
  assumes "x = of_int k * pow2 e" and "\<bar>x\<bar> < 2 ^ p * pow2 e"
  shows "representable p x"
proof -
  have "\<bar>real_of_int k\<bar> * pow2 e < 2 ^ p * pow2 e"
    using assms by (simp add: abs_mult)
  then have "\<bar>real_of_int k\<bar> < 2 ^ p"
    by (simp only: mult_less_cancel_right_pos [OF pow2_pos])
  then have "\<bar>k\<bar> < 2 ^ p"
    by (metis of_int_abs of_int_less_numeral_power_cancel_iff)
  with assms(1) show ?thesis
    unfolding representable_def by blast
qed

text \<open>A representable number of magnitude at least \<open>2^p * 2^e\<close> is a multiple of \<open>2^(e+1)\<close>.\<close>

lemma representable_coarse:
  assumes "representable p x" and "2 ^ p * pow2 e \<le> \<bar>x\<bar>"
  shows "\<exists>k. x = of_int k * pow2 (e + 1)"
proof -
  from assms(1) obtain m d :: int where m: "\<bar>m\<bar> < 2 ^ p" and x: "x = of_int m * pow2 d"
    unfolding representable_def by blast
  have "\<bar>x\<bar> = \<bar>real_of_int m\<bar> * pow2 d"
    by (simp add: x abs_mult)
  also have "\<dots> < 2 ^ p * pow2 d"
    using m by (simp add: of_int_abs [symmetric] del: of_int_abs)
  finally have "\<bar>x\<bar> < 2 ^ p * pow2 d" .
  with assms(2) have "(2::real) ^ p * pow2 e < 2 ^ p * pow2 d"
    by linarith
  then have "pow2 e < pow2 d"
    by simp
  then have "e < d"
    by (simp only: pow2_less_iff)
  then have "pow2 d = of_int (2 ^ nat (d - (e + 1))) * pow2 (e + 1)"
    by (intro pow2_multiple) simp
  then have "x = of_int (m * 2 ^ nat (d - (e + 1))) * pow2 (e + 1)"
    by (simp add: x)
  then show ?thesis ..
qed

text \<open>Two representable numbers lie on a common grid that is fine for one of them.\<close>

lemma common_grid:
  assumes "representable p a" and "representable p b"
  obtains e ka kb where "a = of_int ka * pow2 e" and "b = of_int kb * pow2 e"
    and "\<bar>a\<bar> < 2 ^ p * pow2 e \<or> \<bar>b\<bar> < 2 ^ p * pow2 e"
proof -
  from assms obtain ma ea mb eb :: int
    where ma: "\<bar>ma\<bar> < 2 ^ p" and a: "a = of_int ma * pow2 ea"
      and mb: "\<bar>mb\<bar> < 2 ^ p" and b: "b = of_int mb * pow2 eb"
    unfolding representable_def by blast
  have bound: "\<bar>real_of_int m\<bar> * pow2 d < 2 ^ p * pow2 d" if "\<bar>m\<bar> < 2 ^ p" for m d :: int
    using that by (simp add: of_int_abs [symmetric] del: of_int_abs)
  show thesis
  proof (cases "ea \<le> eb")
    case True
    then have "pow2 eb = of_int (2 ^ nat (eb - ea)) * pow2 ea"
      by (rule pow2_multiple)
    then have "b = of_int (mb * 2 ^ nat (eb - ea)) * pow2 ea"
      by (simp add: b)
    moreover have "\<bar>a\<bar> < 2 ^ p * pow2 ea"
      using bound [OF ma, of ea] by (simp add: a abs_mult)
    ultimately show thesis
      using a that by blast
  next
    case False
    then have "pow2 ea = of_int (2 ^ nat (ea - eb)) * pow2 eb"
      by (intro pow2_multiple) simp
    then have "a = of_int (ma * 2 ^ nat (ea - eb)) * pow2 eb"
      by (simp add: a)
    moreover have "\<bar>b\<bar> < 2 ^ p * pow2 eb"
      using bound [OF mb, of eb] by (simp add: b abs_mult)
    ultimately show thesis
      using b that by blast
  qed
qed

subsection \<open>Roundings to nearest\<close>

lemma nearest_representable: "nearest_rounding p rnd \<Longrightarrow> representable p (rnd x)"
  by (simp add: nearest_rounding_def)

lemma nearest_closest:
  "nearest_rounding p rnd \<Longrightarrow> representable p f \<Longrightarrow> \<bar>rnd x - x\<bar> \<le> \<bar>f - x\<bar>"
  by (simp add: nearest_rounding_def)

lemma nearest_fix: "nearest_rounding p rnd \<Longrightarrow> representable p x \<Longrightarrow> rnd x = x"
  using nearest_closest [of p rnd x x] by simp

lemma nearest_ge:
  assumes "nearest_rounding p rnd" and "representable p f" and "f \<le> x"
  shows "f \<le> rnd x"
  using nearest_closest [OF assms(1,2), of x] assms(3) by linarith

lemma nearest_le:
  assumes "nearest_rounding p rnd" and "representable p f" and "x \<le> f"
  shows "rnd x \<le> f"
  using nearest_closest [OF assms(1,2), of x] assms(3) by linarith

lemma sterbenz:
  assumes "representable p a" and "representable p b" and "b / 2 \<le> a" and "a \<le> 2 * b"
  shows "representable p (a - b)"
proof -
  from assms(1,2) obtain e ka kb
    where a: "a = of_int ka * pow2 e" and b: "b = of_int kb * pow2 e"
      and fine: "\<bar>a\<bar> < 2 ^ p * pow2 e \<or> \<bar>b\<bar> < 2 ^ p * pow2 e"
    by (rule common_grid)
  have "a - b = of_int (ka - kb) * pow2 e"
    by (simp add: a b algebra_simps)
  moreover have "\<bar>a - b\<bar> \<le> \<bar>a\<bar>" "\<bar>a - b\<bar> \<le> \<bar>b\<bar>"
    using assms(3,4) by linarith+
  with fine have "\<bar>a - b\<bar> < 2 ^ p * pow2 e"
    by linarith
  ultimately show ?thesis
    by (rule representable_grid)
qed

lemma representable_power: "1 \<le> p \<Longrightarrow> representable p (2 ^ p * pow2 e)"
proof -
  assume "1 \<le> p"
  then have "\<bar>1::int\<bar> < 2 ^ p"
    by simp
  moreover have "2 ^ p * pow2 e = of_int 1 * pow2 (int p + e)"
    by (simp add: pow2_add pow2_nat)
  ultimately show ?thesis
    unfolding representable_def by blast
qed

lemma pow2_one: "pow2 1 = 2"
  by (simp add: pow2_def)

lemma sum_error_representable:
  assumes near: "nearest_rounding p rnd" and p: "1 \<le> p"
    and ra: "representable p a" and rb: "representable p b"
  shows "representable p (a + b - rnd (a + b))"
proof -
  let ?x = "a + b"
  let ?s = "rnd ?x"
  from ra rb obtain e ka kb
    where a: "a = of_int ka * pow2 e" and b: "b = of_int kb * pow2 e"
      and fine: "\<bar>a\<bar> < 2 ^ p * pow2 e \<or> \<bar>b\<bar> < 2 ^ p * pow2 e"
    by (rule common_grid)
  have x: "?x = of_int (ka + kb) * pow2 e"
    by (simp add: a b algebra_simps)
  have "\<bar>?s - ?x\<bar> \<le> \<bar>a - ?x\<bar>"
    using near ra by (rule nearest_closest)
  moreover have "\<bar>?s - ?x\<bar> \<le> \<bar>b - ?x\<bar>"
    using near rb by (rule nearest_closest)
  moreover have "\<bar>a - ?x\<bar> = \<bar>b\<bar>" "\<bar>b - ?x\<bar> = \<bar>a\<bar>"
    by simp_all
  moreover have "\<bar>?x - ?s\<bar> = \<bar>?s - ?x\<bar>"
    by (rule abs_minus_commute)
  ultimately have small: "\<bar>?x - ?s\<bar> < 2 ^ p * pow2 e"
    using fine by linarith
  show ?thesis
  proof (cases "\<bar>?x\<bar> < 2 ^ p * pow2 e")
    case True
    with x have "representable p ?x"
      by (rule representable_grid)
    with near have "?s = ?x"
      by (rule nearest_fix)
    then show ?thesis
      by simp
  next
    case False
    let ?t = "2 ^ p * pow2 e"
    have t: "representable p ?t"
      using p by (rule representable_power)
    have "?t \<le> \<bar>?s\<bar>"
    proof (cases "0 \<le> ?x")
      case True
      with False have "?t \<le> ?x"
        by simp
      with near t have "?t \<le> ?s"
        by (rule nearest_ge)
      then show ?thesis
        by simp
    next
      case neg: False
      with False have below: "?x \<le> - ?t"
        by simp
      have "representable p (- ?t)"
        using t by simp
      with near have "?s \<le> - ?t"
        using below by (rule nearest_le)
      then show ?thesis
        by simp
    qed
    with nearest_representable [OF near, of ?x] obtain k where "?s = of_int k * pow2 (e + 1)"
      by (rule representable_coarse [THEN exE])
    then have "?s = of_int (2 * k) * pow2 e"
      by (simp add: pow2_add pow2_one)
    with x have "?x - ?s = of_int (ka + kb - 2 * k) * pow2 e"
      by (simp add: algebra_simps)
    then show ?thesis
      using small by (rule representable_grid)
  qed
qed

subsection \<open>The two-sum\<close>

text \<open>The operations after the first are exact as soon as two differences are representable.\<close>

lemma twoSum_core:
  assumes near: "nearest_rounding p rnd" and p: "1 \<le> p"
    and ra: "representable p a" and rb: "representable p b"
    and A: "representable p (rnd (a + b) - rnd (rnd (a + b) - a))"
    and C: "representable p (b - rnd (rnd (a + b) - a))"
  shows "fst (twoSum rnd a b) + snd (twoSum rnd a b) = a + b"
proof -
  let ?s = "rnd (a + b)"
  let ?v = "rnd (?s - a)"
  have rs: "representable p ?s"
    using near by (rule nearest_representable)
  have 1: "rnd (?s - ?v) = ?s - ?v"
    using near A by (rule nearest_fix)
  have "representable p (?s + - a - rnd (?s + - a))"
    using near p rs by (rule sum_error_representable) (simp add: ra)
  then have "representable p (- (a - (?s - ?v)))"
    by (simp add: algebra_simps)
  then have "representable p (a - (?s - ?v))"
    by (simp only: representable_minus_iff)
  with near have 2: "rnd (a - (?s - ?v)) = a - (?s - ?v)"
    by (rule nearest_fix)
  have 3: "rnd (b - ?v) = b - ?v"
    using near C by (rule nearest_fix)
  have "representable p (a + b - ?s)"
    using near p ra rb by (rule sum_error_representable)
  with near have "rnd (a + b - ?s) = a + b - ?s"
    by (rule nearest_fix)
  moreover have "a - (?s - ?v) + (b - ?v) = a + b - ?s"
    by simp
  ultimately have 4: "rnd (a - (?s - ?v) + (b - ?v)) = a + b - ?s"
    by (simp only:)
  show ?thesis
    unfolding twoSum_def Let_def fst_conv snd_conv 1 2 3 4 by simp
qed

lemma twoSum_exact_difference:
  assumes near: "nearest_rounding p rnd" and p: "1 \<le> p"
    and ra: "representable p a" and rb: "representable p b"
    and D: "representable p (rnd (a + b) - a)"
  shows "fst (twoSum rnd a b) + snd (twoSum rnd a b) = a + b"
proof -
  let ?s = "rnd (a + b)"
  have v: "rnd (?s - a) = ?s - a"
    using near D by (rule nearest_fix)
  have "representable p (a + b - ?s)"
    using near p ra rb by (rule sum_error_representable)
  then have C: "representable p (b - rnd (?s - a))"
    by (simp add: v algebra_simps)
  have A: "representable p (?s - rnd (?s - a))"
    by (simp add: v ra)
  from near p ra rb A C show ?thesis
    by (rule twoSum_core)
qed

lemma twoSum_positive:
  assumes near: "nearest_rounding p rnd" and p: "1 \<le> p"
    and ra: "representable p a" and rb: "representable p b"
    and pos: "0 < a + b"
  shows "fst (twoSum rnd a b) + snd (twoSum rnd a b) = a + b"
proof -
  let ?s = "rnd (a + b)"
  let ?v = "rnd (?s - a)"
  note ge = nearest_ge [OF near] and le = nearest_le [OF near]
  have rs: "representable p ?s"
    using near by (rule nearest_representable)
  have rv: "representable p ?v"
    using near by (rule nearest_representable)
  note exact = twoSum_exact_difference [OF near p ra rb]
  have summable: ?thesis if "representable p (a + b)"
  proof -
    from near that have "?s = a + b"
      by (rule nearest_fix)
    with rb show ?thesis
      by (intro exact) simp
  qed
  show ?thesis
  proof (cases "\<bar>b\<bar> \<le> \<bar>a\<bar>")
    case True
    with pos have a: "0 < a"
      by linarith
    show ?thesis
    proof (cases "0 \<le> b")
      case b: True
      have "a \<le> ?s"
        using ra b by (intro ge) simp_all
      moreover have "?s \<le> 2 * a"
        using ra True a b by (intro le representable_double) simp_all
      ultimately have "representable p (?s - a)"
        using rs ra a by (intro sterbenz) simp_all
      then show ?thesis
        by (rule exact)
    next
      case b: False
      show ?thesis
      proof (cases "a \<le> 2 * (- b)")
        case True
        with ra rb \<open>\<bar>b\<bar> \<le> \<bar>a\<bar>\<close> a b have "representable p (a - (- b))"
          by (intro sterbenz) simp_all
        then show ?thesis
          by (intro summable) simp
      next
        case False
        have "a / 2 \<le> ?s"
          using ra False by (intro ge representable_half) simp_all
        moreover have "?s \<le> a"
          using ra b by (intro le) simp_all
        ultimately have "representable p (?s - a)"
          using rs ra a by (intro sterbenz) simp_all
        then show ?thesis
          by (rule exact)
      qed
    qed
  next
    case False
    with pos have b: "0 < b"
      by linarith
    show ?thesis
    proof (cases "0 \<le> a")
      case a: True
      have s1: "b \<le> ?s"
        using rb a by (intro ge) simp_all
      have s2: "?s \<le> 2 * b"
        using rb False a b by (intro le representable_double) simp_all
      have s3: "2 * a \<le> ?s"
        using ra False a b by (intro ge representable_double) simp_all
      have v1: "?s / 2 \<le> ?v"
        using rs s3 by (intro ge representable_half) simp_all
      have v2: "?v \<le> ?s"
        using rs a by (intro le) simp_all
      have "representable p (?s - ?v)"
        using rs rv v1 v2 s1 b by (intro sterbenz) simp_all
      moreover have "representable p (b - ?v)"
        using rb rv v1 v2 s1 s2 by (intro sterbenz) simp_all
      ultimately show ?thesis
        by (intro twoSum_core [OF near p ra rb])
    next
      case a: False
      show ?thesis
      proof (cases "b \<le> 2 * (- a)")
        case True
        with ra rb \<open>\<not> \<bar>b\<bar> \<le> \<bar>a\<bar>\<close> a b have "representable p (b - (- a))"
          by (intro sterbenz) simp_all
        then show ?thesis
          by (intro summable) (simp add: add.commute)
      next
        case far: False
        have s1: "b / 2 \<le> ?s"
          using rb far by (intro ge representable_half) simp_all
        have s2: "?s \<le> b"
          using rb a by (intro le) simp_all
        have v1: "?s \<le> ?v"
          using rs a by (intro ge) simp_all
        have v2: "?v \<le> 2 * ?s"
          using rs far s1 by (intro le representable_double) simp_all
        have "representable p (?v - ?s)"
          using rs rv v1 v2 s1 b by (intro sterbenz) simp_all
        then have "representable p (- (?v - ?s))"
          by (simp only: representable_minus_iff)
        then have "representable p (?s - ?v)"
          by simp
        moreover have "representable p (b - ?v)"
          using rb rv v1 v2 s1 s2 by (intro sterbenz) simp_all
        ultimately show ?thesis
          by (intro twoSum_core [OF near p ra rb])
      qed
    qed
  qed
qed

lemma mirrored_nearest:
  assumes "nearest_rounding p rnd"
  shows "nearest_rounding p (mirrored rnd)"
  unfolding nearest_rounding_def mirrored_def
proof (intro allI conjI impI)
  fix x
  show "representable p (- rnd (- x))"
    using assms by (simp add: nearest_representable)
next
  fix x f
  assume "representable p f"
  then have "representable p (- f)"
    by simp
  with assms have "\<bar>rnd (- x) - (- x)\<bar> \<le> \<bar>- f - (- x)\<bar>"
    by (rule nearest_closest)
  moreover have "\<bar>- rnd (- x) - x\<bar> = \<bar>rnd (- x) - (- x)\<bar>" "\<bar>- f - (- x)\<bar> = \<bar>f - x\<bar>"
    by linarith+
  ultimately show "\<bar>- rnd (- x) - x\<bar> \<le> \<bar>f - x\<bar>"
    by simp
qed

lemma twoSum_mirrored:
  "twoSum rnd a b
     = (- fst (twoSum (mirrored rnd) (- a) (- b)), - snd (twoSum (mirrored rnd) (- a) (- b)))"
  by (simp add: twoSum_def mirrored_def Let_def add.commute)

lemma representable_0_iff: "representable 0 x \<longleftrightarrow> x = 0"
  by (auto simp: representable_def)

text \<open>The sign and the case \<open>p = 0\<close> put together.\<close>

lemma twoSum_sum:
  assumes near: "nearest_rounding p rnd"
    and ra: "representable p a" and rb: "representable p b"
  shows "fst (twoSum rnd a b) + snd (twoSum rnd a b) = a + b"
proof (cases "p = 0")
  case True
  with near have "rnd x = 0" for x
    using nearest_representable [of p rnd x] by (simp add: representable_0_iff)
  moreover from True ra rb have "a = 0" "b = 0"
    by (simp_all add: representable_0_iff)
  ultimately show ?thesis
    by (simp add: twoSum_def)
next
  case False
  then have p: "1 \<le> p"
    by simp
  consider "0 < a + b" | "a + b = 0" | "a + b < 0"
    by linarith
  then show ?thesis
  proof cases
    case 1
    with near p ra rb show ?thesis
      by (rule twoSum_positive)
  next
    case 2
    have "rnd 0 = 0"
      using near by (rule nearest_fix) simp
    with 2 ra have "representable p (rnd (a + b) - a)"
      by simp
    with near p ra rb show ?thesis
      by (rule twoSum_exact_difference)
  next
    case 3
    have "fst (twoSum (mirrored rnd) (- a) (- b)) + snd (twoSum (mirrored rnd) (- a) (- b))
        = - a + - b"
      using mirrored_nearest [OF near] p
    proof (rule twoSum_positive)
      show "representable p (- a)" "representable p (- b)"
        using ra rb by simp_all
      show "0 < - a + - b"
        using 3 by simp
    qed
    moreover have "fst (twoSum rnd a b) = - fst (twoSum (mirrored rnd) (- a) (- b))"
      "snd (twoSum rnd a b) = - snd (twoSum (mirrored rnd) (- a) (- b))"
      by (simp_all add: twoSum_mirrored [of rnd a b])
    ultimately show ?thesis
      by linarith
  qed
qed

text \<open>
  Claim C2. For all floats \<open>a\<close> and \<open>b\<close>, \<open>twoSum(a, b)\<close> returns a pair \<open>(s, e)\<close>
  with \<open>s + e = a + b\<close> exactly. This holds in every binary format whose operations
  round to nearest, whatever its precision and its rule for ties, as long as no
  operation leaves the exponent range (which the model does not bound).
\<close>

theorem twoSum_exact:
  assumes near: "nearest_rounding p rnd"
    and ra: "representable p a" and rb: "representable p b"
  shows "fst (twoSum rnd a b) + snd (twoSum rnd a b) = a + b"
  using near ra rb by (rule twoSum_sum)

subsection \<open>\<open>round_nearest_even\<close> is a rounding to nearest\<close>

lemma bit_length_bounds: "0 < n \<Longrightarrow> 2 ^ bit_length n \<le> 2 * n \<and> n < 2 ^ bit_length n"
proof (induction n rule: bit_length.induct)
  case (1 n)
  show ?case
  proof (cases "n div 2 \<le> 0")
    case True
    with "1.prems" have "n = 1"
      by linarith
    then show ?thesis
      by (simp add: bit_length.simps)
  next
    case False
    then have "2 ^ bit_length (n div 2) \<le> 2 * (n div 2) \<and> n div 2 < 2 ^ bit_length (n div 2)"
      using "1.prems" by (intro "1.IH") simp_all
    moreover have "bit_length n = Suc (bit_length (n div 2))"
      using "1.prems" by (subst bit_length.simps) simp
    ultimately show ?thesis
      by simp linarith
  qed
qed

lemma exponent_of_bounds:
  assumes "0 < x"
  shows "pow2 (exponent_of x) \<le> x \<and> x < pow2 (exponent_of x + 1)"
proof (cases "1 \<le> x")
  case True
  let ?n = "\<lfloor>x\<rfloor>"
  let ?k = "bit_length ?n"
  from True have n: "0 < ?n"
    by simp
  have b: "2 ^ ?k \<le> 2 * ?n" "?n < 2 ^ ?k"
    using bit_length_bounds [OF n] by blast+
  from b(2) have "0 < ?k"
    using n by (cases "?k") simp_all
  then obtain j where k: "?k = Suc j"
    by (cases "?k") simp_all
  have e: "exponent_of x = int j"
    using True by (simp add: exponent_of_def k)
  from b(1) have "(2::int) ^ j \<le> ?n"
    by (simp add: k)
  then have "real_of_int (2 ^ j) \<le> real_of_int ?n"
    by (simp only: of_int_le_iff)
  moreover have "real_of_int ?n \<le> x"
    by (rule of_int_floor_le)
  moreover have "real_of_int (2 ^ j) = 2 ^ j"
    by simp
  ultimately have lo: "2 ^ j \<le> x"
    by linarith
  from b(2) have "?n + 1 \<le> 2 ^ Suc j"
    by (simp add: k)
  then have "real_of_int (?n + 1) \<le> real_of_int (2 ^ Suc j)"
    by (simp only: of_int_le_iff)
  moreover have "x < real_of_int (?n + 1)"
    by linarith
  moreover have "real_of_int (2 ^ Suc j) = 2 ^ Suc j"
    by simp
  ultimately have hi: "x < 2 ^ Suc j"
    by linarith
  have "pow2 (int j) = 2 ^ j" "pow2 (int j + 1) = 2 ^ Suc j"
    by (simp_all add: pow2_add pow2_nat pow2_one)
  with lo hi show ?thesis
    by (simp add: e)
next
  case False
  let ?y = "1 / x"
  let ?n = "\<lceil>?y\<rceil> - 1"
  let ?k = "bit_length ?n"
  from False assms have y: "1 < ?y"
    by simp
  then have "1 < \<lceil>?y\<rceil>"
    by (simp add: less_ceiling_iff)
  then have n: "0 < ?n"
    by simp
  have b: "2 ^ ?k \<le> 2 * ?n" "?n < 2 ^ ?k"
    using bit_length_bounds [OF n] by blast+
  have e: "exponent_of x = - int ?k"
    using False by (simp add: exponent_of_def)
  have ny: "real_of_int ?n < ?y" "?y \<le> real_of_int ?n + 1"
    by linarith+
  have pk: "real_of_int (2 ^ ?k) = 2 ^ ?k"
    by simp
  from b(2) have "?n + 1 \<le> 2 ^ ?k"
    by simp
  then have "real_of_int (?n + 1) \<le> real_of_int (2 ^ ?k)"
    by (simp only: of_int_le_iff)
  moreover have "real_of_int (?n + 1) = real_of_int ?n + 1"
    by simp
  ultimately have y_hi: "?y \<le> 2 ^ ?k"
    using ny(2) pk by linarith
  from b(1) have le: "real_of_int (2 ^ ?k) \<le> real_of_int (2 * ?n)"
    by (simp only: of_int_le_iff)
  have "2 ^ ?k = real_of_int (2 ^ ?k)"
    by simp
  also note le
  also have "real_of_int (2 * ?n) = 2 * real_of_int ?n"
    by simp
  also have "\<dots> < 2 * ?y"
    using ny(1) by (intro mult_strict_left_mono) simp_all
  finally have y_lo: "2 ^ ?k < 2 * ?y" .
  have p1: "pow2 (- int ?k) = 1 / 2 ^ ?k"
    by (simp add: pow2_def)
  have p2: "pow2 (- int ?k + 1) = 2 / 2 ^ ?k"
    unfolding pow2_add p1 pow2_one by simp
  from y_hi assms have "1 / 2 ^ ?k \<le> x"
    by (simp add: field_simps)
  moreover from y_lo assms have "x < 2 / 2 ^ ?k"
    by (simp add: field_simps)
  ultimately show ?thesis
    unfolding e p1 p2 by simp
qed

lemma round_half_even_nearest:
  "\<bar>of_int (round_half_even r) - r\<bar> \<le> \<bar>of_int k - r\<bar>"
proof -
  let ?f = "\<lfloor>r\<rfloor>"
  have "k \<le> ?f \<or> ?f + 1 \<le> k"
    by linarith
  then have "real_of_int k \<le> real_of_int ?f \<or> real_of_int ?f + 1 \<le> real_of_int k"
    by (metis of_int_le_iff of_int_add of_int_1)
  moreover have "real_of_int ?f \<le> r" "r < real_of_int ?f + 1"
    by linarith+
  ultimately show ?thesis
    by (auto simp: round_half_even_def Let_def)
qed

lemma round_nearest_even_minus: "round_nearest_even p (- x) = - round_nearest_even p x"
  by (simp add: round_nearest_even_def Let_def)

lemma round_nearest_even_positive:
  assumes p: "1 \<le> p" and x: "0 < x"
  shows "representable p (round_nearest_even p x)"
    and "representable p f \<Longrightarrow> \<bar>round_nearest_even p x - x\<bar> \<le> \<bar>f - x\<bar>"
proof -
  define e where "e = exponent_of x"
  define u where "u = pow2 (e - int p + 1)"
  define q where "q = x / u"
  define m where "m = round_half_even q"
  have r: "round_nearest_even p x = of_int m * u"
    using x by (simp add: round_nearest_even_def Let_def e_def u_def q_def m_def)
  have u: "0 < u"
    by (simp add: u_def)
  have xq: "x = q * u"
    using u by (simp add: q_def)
  from p obtain p' where p': "p = Suc p'"
    by (cases p) simp_all
  have "pow2 e = pow2 (int p' + (e - int p + 1))"
    by (simp add: p')
  then have lo: "pow2 e = 2 ^ p' * u"
    by (simp only: pow2_add pow2_nat u_def)
  have "pow2 (e + 1) = pow2 (int p + (e - int p + 1))"
    by simp
  then have hi: "pow2 (e + 1) = 2 ^ p * u"
    by (simp only: pow2_add pow2_nat u_def)
  from exponent_of_bounds [OF x] have "2 ^ p' * u \<le> q * u" "q * u < 2 ^ p * u"
    by (simp_all add: e_def [symmetric] lo hi xq [symmetric])
  with u have q: "2 ^ p' \<le> q" "q < 2 ^ p"
    by simp_all
  have near: "\<bar>of_int m - q\<bar> \<le> \<bar>of_int k - q\<bar>" for k
    unfolding m_def by (rule round_half_even_nearest)
  define top where "top = real_of_int (2 ^ p)"
  define bot where "bot = real_of_int (2 ^ p')"
  have top: "top = 2 ^ p" and bot: "bot = 2 ^ p'"
    by (simp_all add: top_def bot_def)
  have near_top: "\<bar>of_int m - q\<bar> \<le> \<bar>top - q\<bar>"
    and near_bot: "\<bar>of_int m - q\<bar> \<le> \<bar>bot - q\<bar>"
    unfolding top_def bot_def by (rule near)+
  from near_top q(2) top have "real_of_int m \<le> top"
    by linarith
  then have m_hi: "m \<le> 2 ^ p"
    unfolding top_def by (simp only: of_int_le_iff)
  from near_bot q(1) bot have "bot \<le> real_of_int m"
    by linarith
  then have m_lo: "2 ^ p' \<le> m"
    unfolding bot_def by (simp only: of_int_le_iff)
  then have m_pos: "0 < m"
    by (rule less_le_trans [rotated]) simp
  show "representable p (round_nearest_even p x)"
  proof (cases "m < 2 ^ p")
    case True
    with m_pos have "\<bar>m\<bar> < 2 ^ p"
      by simp
    then show ?thesis
      unfolding representable_def r u_def by blast
  next
    case False
    with m_hi have "m = 2 ^ p"
      by simp
    then have "round_nearest_even p x = 2 ^ p * pow2 (e - int p + 1)"
      by (simp add: r u_def)
    with p show ?thesis
      by (simp only: representable_power)
  qed
  show "\<bar>round_nearest_even p x - x\<bar> \<le> \<bar>f - x\<bar>" if f: "representable p f"
  proof -
    have err: "\<bar>round_nearest_even p x - x\<bar> = \<bar>of_int m - q\<bar> * u"
    proof -
      have "of_int m * u - q * u = (of_int m - q) * u"
        by (simp add: algebra_simps)
      with xq have "round_nearest_even p x - x = (of_int m - q) * u"
        unfolding r by linarith
      then show ?thesis
        using u by (simp add: abs_mult)
    qed
    show ?thesis
    proof (cases "pow2 e \<le> f")
      case True
      have "2 ^ p * pow2 (e - int p) = pow2 (int p + (e - int p))"
        by (simp only: pow2_add pow2_nat)
      then have "2 ^ p * pow2 (e - int p) \<le> \<bar>f\<bar>"
        using True by simp
      with f obtain k where "f = of_int k * pow2 (e - int p + 1)"
        by (rule representable_coarse [THEN exE])
      then have "f = of_int k * u"
        by (simp only: u_def)
      moreover have "of_int k * u - q * u = (of_int k - q) * u"
        by (simp add: algebra_simps)
      ultimately have "f - x = (of_int k - q) * u"
        using xq by linarith
      then have "\<bar>f - x\<bar> = \<bar>of_int k - q\<bar> * u"
        using u by (simp add: abs_mult)
      moreover have "\<bar>of_int m - q\<bar> * u \<le> \<bar>of_int k - q\<bar> * u"
        using near [of k] u by (simp only: mult_le_cancel_right_pos)
      ultimately show ?thesis
        by (simp only: err)
    next
      case False
      from near_bot q(1) bot have "\<bar>of_int m - q\<bar> \<le> q - 2 ^ p'"
        by linarith
      with u have "\<bar>of_int m - q\<bar> * u \<le> (q - 2 ^ p') * u"
        by (simp only: mult_le_cancel_right_pos)
      also have "\<dots> = q * u - 2 ^ p' * u"
        by (simp add: algebra_simps)
      also have "\<dots> = x - pow2 e"
        using lo xq by linarith
      also have "\<dots> \<le> \<bar>f - x\<bar>"
        using False by simp
      finally show ?thesis
        by (simp only: err)
    qed
  qed
qed

theorem round_nearest_even_nearest:
  assumes "1 \<le> p"
  shows "nearest_rounding p (round_nearest_even p)"
  unfolding nearest_rounding_def
proof (intro allI conjI impI)
  fix x :: real
  consider "x = 0" | "0 < x" | "0 < - x"
    by linarith
  then show "representable p (round_nearest_even p x)"
  proof cases
    case 1
    then show ?thesis
      by (simp add: round_nearest_even_def)
  next
    case 2
    with assms show ?thesis
      by (rule round_nearest_even_positive)
  next
    case 3
    with assms have "representable p (round_nearest_even p (- x))"
      by (rule round_nearest_even_positive)
    then show ?thesis
      by (simp add: round_nearest_even_minus)
  qed
next
  fix x f :: real
  assume f: "representable p f"
  consider "x = 0" | "0 < x" | "0 < - x"
    by linarith
  then show "\<bar>round_nearest_even p x - x\<bar> \<le> \<bar>f - x\<bar>"
  proof cases
    case 1
    then show ?thesis
      by (simp add: round_nearest_even_def)
  next
    case 2
    with assms show ?thesis
      using f by (rule round_nearest_even_positive)
  next
    case 3
    from f have "representable p (- f)"
      by simp
    with assms 3 have "\<bar>round_nearest_even p (- x) - (- x)\<bar> \<le> \<bar>- f - (- x)\<bar>"
      by (rule round_nearest_even_positive)
    moreover have "\<bar>- f - (- x)\<bar> = \<bar>f - x\<bar>"
      by linarith
    moreover have "\<bar>round_nearest_even p (- x) - (- x)\<bar> = \<bar>round_nearest_even p x - x\<bar>"
      unfolding round_nearest_even_minus by linarith
    ultimately show ?thesis
      by simp
  qed
qed

lemma binary32_nearest: "nearest_rounding 24 binary32"
  unfolding binary32_def by (rule round_nearest_even_nearest) simp

lemma representable_24_one: "representable 24 1"
  unfolding representable_def by (intro exI [of _ 1] exI [of _ 0]) simp

lemma representable_24_small: "representable 24 (1 / 2 ^ 30)"
  unfolding representable_def by (intro exI [of _ 1] exI [of _ "- 30"]) (simp add: pow2_def)

theorem twoSum_exact_witness:
  "nearest_rounding 24 binary32 \<and> representable 24 1 \<and> representable 24 (1 / 2 ^ 30)
   \<and> fst (twoSum binary32 1 (1 / 2 ^ 30)) + snd (twoSum binary32 1 (1 / 2 ^ 30))
       = 1 + 1 / 2 ^ 30"
  using binary32_nearest representable_24_one representable_24_small
    twoSum_exact [OF binary32_nearest representable_24_one representable_24_small]
  by simp

section \<open>Double-double addition and multiplication\<close>

subsection \<open>The error of a rounding to nearest\<close>

lemma representable_grid_le:
  assumes p: "1 \<le> p" and x: "x = of_int k * pow2 e" and le: "\<bar>x\<bar> \<le> 2 ^ p * pow2 e"
  shows "representable p x"
proof (cases "\<bar>x\<bar> < 2 ^ p * pow2 e")
  case True
  with x show ?thesis
    by (rule representable_grid)
next
  case False
  with le have "\<bar>x\<bar> = 2 ^ p * pow2 e"
    by simp
  then have "x = 2 ^ p * pow2 e \<or> x = - (2 ^ p * pow2 e)"
    by linarith
  with representable_power [OF p, of e] show ?thesis
    by auto
qed

text \<open>
  Between \<open>2^p * 2^e\<close> and \<open>2^p * 2^(e+1)\<close> the floats are the multiples of \<open>2^(e+1)\<close>: there
  a rounding to nearest returns such a multiple, at most \<open>2^e\<close> away from its argument.
\<close>

lemma nearest_binade_positive:
  assumes near: "nearest_rounding p rnd" and p: "1 \<le> p"
    and lo: "2 ^ p * pow2 e \<le> x" and hi: "x \<le> 2 ^ p * pow2 (e + 1)"
  shows "(\<exists>k. rnd x = of_int k * pow2 (e + 1)) \<and> \<bar>rnd x - x\<bar> \<le> pow2 e"
proof
  have "2 ^ p * pow2 e \<le> rnd x"
    using near representable_power [OF p] lo by (rule nearest_ge)
  then have "2 ^ p * pow2 e \<le> \<bar>rnd x\<bar>"
    by simp
  with nearest_representable [OF near] show "\<exists>k. rnd x = of_int k * pow2 (e + 1)"
    by (rule representable_coarse)
next
  define q where "q = pow2 (e + 1)"
  define k where "k = round (x / q)"
  define f where "f = of_int k * q"
  have q: "0 < q" "q = 2 * pow2 e"
    by (simp_all add: q_def pow2_add pow2_one)
  have "0 \<le> 2 ^ p * pow2 e"
    by (intro mult_nonneg_nonneg) (simp_all add: less_imp_le)
  with lo have "0 \<le> x"
    by linarith
  have y: "0 \<le> x / q" "x / q \<le> 2 ^ p"
    using \<open>0 \<le> x\<close> q(1) hi by (simp_all add: q_def field_simps)
  have "round (0 :: real) \<le> round (x / q)" "round (x / q) \<le> round (2 ^ p :: real)"
    by (rule round_mono, rule y(1)) (rule round_mono, rule y(2))
  moreover have "round (2 ^ p :: real) = 2 ^ p"
    using round_of_int [where ?'a = real, of "2 ^ p"] by simp
  ultimately have "0 \<le> k" "k \<le> 2 ^ p"
    unfolding k_def by simp_all
  then have k: "0 \<le> k" "real_of_int k \<le> real_of_int (2 ^ p)"
    by (simp_all only: of_int_le_iff)
  have "\<bar>f\<bar> = real_of_int k * q"
    using k(1) q(1) by (simp add: f_def abs_mult)
  also have "\<dots> \<le> 2 ^ p * q"
    using k(2) q(1) by simp
  finally have "representable p f"
    using p f_def unfolding q_def by (intro representable_grid_le [of p f k "e + 1"]) simp_all
  then have "\<bar>rnd x - x\<bar> \<le> \<bar>f - x\<bar>"
    using near by (simp add: nearest_closest)
  also have "f - x = (of_int k - x / q) * q"
    using q(1) by (simp add: f_def field_simps)
  then have "\<bar>f - x\<bar> = \<bar>of_int k - x / q\<bar> * q"
    using q(1) by (simp add: abs_mult)
  also have "\<dots> \<le> 1 / 2 * q"
    unfolding k_def using q(1) of_int_round_abs_le [of "x / q"] by (intro mult_right_mono) simp_all
  also have "\<dots> = pow2 e"
    by (simp add: q(2))
  finally show "\<bar>rnd x - x\<bar> \<le> pow2 e" .
qed

lemma nearest_binade:
  assumes near: "nearest_rounding p rnd" and p: "1 \<le> p"
    and lo: "2 ^ p * pow2 e \<le> \<bar>x\<bar>" and hi: "\<bar>x\<bar> \<le> 2 ^ p * pow2 (e + 1)"
  shows "(\<exists>k. rnd x = of_int k * pow2 (e + 1)) \<and> \<bar>rnd x - x\<bar> \<le> pow2 e"
proof (cases "0 \<le> x")
  case True
  with lo hi show ?thesis
    by (intro nearest_binade_positive [OF near p]) simp_all
next
  case False
  with lo hi have "(\<exists>k. mirrored rnd (- x) = of_int k * pow2 (e + 1))
      \<and> \<bar>mirrored rnd (- x) - (- x)\<bar> \<le> pow2 e"
    by (intro nearest_binade_positive [OF mirrored_nearest [OF near] p]) simp_all
  then have "(\<exists>k. - rnd x = of_int k * pow2 (e + 1)) \<and> \<bar>- rnd x + x\<bar> \<le> pow2 e"
    by (simp add: mirrored_def)
  then obtain k where k: "- rnd x = of_int k * pow2 (e + 1)" and err: "\<bar>- rnd x + x\<bar> \<le> pow2 e"
    by blast
  from k have "rnd x = of_int (- k) * pow2 (e + 1)"
    by simp
  moreover from err have "\<bar>rnd x - x\<bar> \<le> pow2 e"
    by linarith
  ultimately show ?thesis
    by blast
qed

text \<open>The relative error of one operation is at most \<open>2^-p\<close>.\<close>

lemma nearest_relative:
  assumes near: "nearest_rounding p rnd" and p: "1 \<le> p"
  shows "\<bar>rnd x - x\<bar> \<le> \<bar>x\<bar> / 2 ^ p"
proof (cases "x = 0")
  case True
  then show ?thesis
    using nearest_fix [OF near representable_zero] by simp
next
  case False
  define e where "e = exponent_of \<bar>x\<bar> - int p"
  from False have "pow2 (exponent_of \<bar>x\<bar>) \<le> \<bar>x\<bar> \<and> \<bar>x\<bar> < pow2 (exponent_of \<bar>x\<bar> + 1)"
    by (intro exponent_of_bounds) simp
  moreover have "pow2 (exponent_of \<bar>x\<bar>) = 2 ^ p * pow2 e"
    "pow2 (exponent_of \<bar>x\<bar> + 1) = 2 ^ p * pow2 (e + 1)"
    by (simp_all add: e_def pow2_add [symmetric] pow2_nat [symmetric])
  ultimately have b: "2 ^ p * pow2 e \<le> \<bar>x\<bar>" "\<bar>x\<bar> \<le> 2 ^ p * pow2 (e + 1)"
    by simp_all
  with near p have "\<bar>rnd x - x\<bar> \<le> pow2 e"
    by (simp add: nearest_binade)
  also have "pow2 e = (2 ^ p * pow2 e) / 2 ^ p"
    by simp
  also have "\<dots> \<le> \<bar>x\<bar> / 2 ^ p"
    using b(1) by (intro divide_right_mono) simp_all
  finally show ?thesis .
qed

lemma nearest_relative_24:
  assumes "nearest_rounding 24 rnd"
  shows "16777216 * \<bar>rnd x - x\<bar> \<le> \<bar>x\<bar>"
  using nearest_relative [OF assms, of x] by simp

subsection \<open>Double-double addition\<close>

lemma twoSum_fst: "fst (twoSum rnd a b) = rnd (a + b)"
  by (simp add: twoSum_def Let_def)

lemma twoSum_snd:
  assumes "nearest_rounding p rnd" and "representable p a" and "representable p b"
  shows "snd (twoSum rnd a b) = a + b - rnd (a + b)"
  using twoSum_sum [OF assms] by (simp add: twoSum_fst)

lemma twoSum_representable:
  assumes "nearest_rounding p rnd"
  shows "representable p (fst (twoSum rnd a b))" and "representable p (snd (twoSum rnd a b))"
  using assms by (simp_all add: twoSum_def Let_def nearest_representable)

text \<open>
  The three calls of \<open>twoSum\<close> in \<open>ddAdd\<close> lose nothing; the two additions \<open>s.y += t.x\<close>
  and \<open>s.y += t.y\<close> round, and their errors are all that \<open>ddAdd\<close> loses.
\<close>

lemma ddAdd_sum:
  assumes near: "nearest_rounding p rnd"
    and ra: "representable p (fst a)" "representable p (snd a)"
    and rb: "representable p (fst b)" "representable p (snd b)"
    and s: "s = twoSum rnd (fst a) (fst b)" and t: "t = twoSum rnd (snd a) (snd b)"
    and x1: "x1 = snd s + fst t"
    and s': "s' = twoSum rnd (fst s) (rnd x1)"
    and x2: "x2 = snd s' + snd t"
  shows "fst (ddAdd rnd a b) + snd (ddAdd rnd a b)
    = (fst a + snd a) + (fst b + snd b) - (x1 - rnd x1) - (x2 - rnd x2)"
proof -
  have dd: "ddAdd rnd a b = twoSum rnd (fst s') (rnd x2)"
    by (simp add: ddAdd_def Let_def s t x1 s' x2)
  have "fst (ddAdd rnd a b) + snd (ddAdd rnd a b) = fst s' + rnd x2"
    unfolding dd using near
    by (rule twoSum_sum) (simp_all add: s' twoSum_representable [OF near] nearest_representable [OF near])
  also have "fst s' + snd s' = fst s + rnd x1"
    unfolding s' using near
    by (rule twoSum_sum) (simp_all add: s twoSum_representable [OF near] nearest_representable [OF near])
  then have "fst s' = fst s + rnd x1 - snd s'"
    by simp
  also have "fst s + snd s = fst a + fst b"
    unfolding s using near ra(1) rb(1) by (rule twoSum_sum)
  then have "fst s = fst a + fst b - snd s"
    by simp
  also have "fst t + snd t = snd a + snd b"
    unfolding t using near ra(2) rb(2) by (rule twoSum_sum)
  then have "snd s = x1 - (snd a + snd b - snd t)"
    by (simp add: x1)
  finally show ?thesis
    by (simp add: x2)
qed

lemma ddAdd_error_arith:
  fixes h l :: real
  assumes "0 \<le> h" and "0 \<le> l"
    and "16777216 * sy \<le> h" and "16777216 * ty \<le> l" and "16777216 * d1 \<le> x1"
    and "16777216 * s2 \<le> f" and "16777216 * d2 \<le> x2"
    and "16777216 * x1 \<le> h + 16777217 * l" and "f \<le> h + sy + x1 + d1"
    and "x2 \<le> s2 + ty"
  shows "70368744177664 * d1 + 70368744177664 * d2 \<le> 8388608 * l + h"
proof -
  from assms have "f \<le> 2 * h + 2 * l"
    by linarith
  with assms have "16777216 * x2 \<le> 2 * h + 3 * l"
    by linarith
  with assms have "281474976710656 * d2 \<le> 2 * h + 3 * l"
    by linarith
  moreover from assms have "281474976710656 * d1 \<le> h + 16777217 * l"
    by linarith
  ultimately show ?thesis
    using assms(1,2) by linarith
qed

lemma ddAdd_error:
  assumes near: "nearest_rounding 24 rnd"
    and ra: "representable 24 (fst a)" "representable 24 (snd a)"
    and rb: "representable 24 (fst b)" "representable 24 (snd b)"
  shows "\<bar>fst (ddAdd rnd a b) + snd (ddAdd rnd a b) - ((fst a + snd a) + (fst b + snd b))\<bar>
    \<le> \<bar>snd a + snd b\<bar> / 2 ^ 23 + \<bar>fst a + fst b\<bar> / 2 ^ 46"
proof -
  define H where "H = fst a + fst b"
  define L where "L = snd a + snd b"
  define s where "s = twoSum rnd (fst a) (fst b)"
  define t where "t = twoSum rnd (snd a) (snd b)"
  define x1 where "x1 = snd s + fst t"
  define s' where "s' = twoSum rnd (fst s) (rnd x1)"
  define x2 where "x2 = snd s' + snd t"
  define d1 where "d1 = x1 - rnd x1"
  define d2 where "d2 = x2 - rnd x2"
  note rel = nearest_relative_24 [OF near]
  have sum: "fst (ddAdd rnd a b) + snd (ddAdd rnd a b) - ((fst a + snd a) + (fst b + snd b))
      = - d1 - d2"
    using ddAdd_sum [OF near ra rb s_def t_def x1_def s'_def x2_def] by (simp add: d1_def d2_def)
  have sx: "fst s = rnd H" and tx: "fst t = rnd L"
    by (simp_all add: s_def t_def twoSum_fst H_def L_def)
  have sy: "snd s = H - rnd H"
    unfolding s_def H_def using near ra(1) rb(1) by (rule twoSum_snd)
  have ty: "snd t = L - rnd L"
    unfolding t_def L_def using near ra(2) rb(2) by (rule twoSum_snd)
  have s'y: "snd s' = fst s + rnd x1 - rnd (fst s + rnd x1)"
    unfolding s'_def using near
    by (rule twoSum_snd) (simp_all add: s_def twoSum_representable [OF near] nearest_representable [OF near])
  have e1: "16777216 * \<bar>snd s\<bar> \<le> \<bar>H\<bar>"
    using rel [of H] by (simp add: sy abs_minus_commute)
  have e2: "16777216 * \<bar>snd t\<bar> \<le> \<bar>L\<bar>"
    using rel [of L] by (simp add: ty abs_minus_commute)
  have e3: "16777216 * \<bar>d1\<bar> \<le> \<bar>x1\<bar>"
    using rel [of x1] by (simp add: d1_def abs_minus_commute)
  have e4: "16777216 * \<bar>snd s'\<bar> \<le> \<bar>fst s + rnd x1\<bar>"
    using rel [of "fst s + rnd x1"] by (simp add: s'y abs_minus_commute)
  have e5: "16777216 * \<bar>d2\<bar> \<le> \<bar>x2\<bar>"
    using rel [of x2] by (simp add: d2_def abs_minus_commute)
  have b1: "16777216 * \<bar>x1\<bar> \<le> \<bar>H\<bar> + 16777217 * \<bar>L\<bar>"
  proof -
    have "x1 = snd s + L - snd t"
      by (simp add: x1_def tx ty)
    with e1 e2 show ?thesis
      by linarith
  qed
  have b2: "\<bar>fst s + rnd x1\<bar> \<le> \<bar>H\<bar> + \<bar>snd s\<bar> + \<bar>x1\<bar> + \<bar>d1\<bar>"
  proof -
    have "fst s + rnd x1 = H - snd s + x1 - d1"
      by (simp add: sx sy d1_def)
    then show ?thesis
      by linarith
  qed
  have b3: "\<bar>x2\<bar> \<le> \<bar>snd s'\<bar> + \<bar>snd t\<bar>"
    by (simp add: x2_def)
  have "70368744177664 * \<bar>d1\<bar> + 70368744177664 * \<bar>d2\<bar> \<le> 8388608 * \<bar>L\<bar> + \<bar>H\<bar>"
    using abs_ge_zero [of H] abs_ge_zero [of L] e1 e2 e3 e4 e5 b1 b2 b3
    by (rule ddAdd_error_arith)
  moreover have "\<bar>- d1 - d2\<bar> \<le> \<bar>d1\<bar> + \<bar>d2\<bar>"
    by linarith
  ultimately have "70368744177664 * \<bar>- d1 - d2\<bar> \<le> 8388608 * \<bar>L\<bar> + \<bar>H\<bar>"
    by linarith
  then show ?thesis
    unfolding sum H_def [symmetric] L_def [symmetric] by simp
qed

subsection \<open>The splitting of an operand in \<open>twoProd\<close>\<close>

lemma pow2_shift: "pow2 (e + int k) = 2 ^ k * pow2 e"
  by (simp add: pow2_add pow2_nat)

lemma representable_int:
  assumes "1 \<le> p" and "\<bar>m\<bar> \<le> 2 ^ p"
  shows "representable p (of_int m * pow2 e)"
proof (rule representable_grid_le [OF assms(1) refl])
  have "\<bar>real_of_int m\<bar> \<le> real_of_int (2 ^ p)"
    using assms(2) by (simp only: of_int_abs [symmetric] of_int_le_iff)
  then show "\<bar>real_of_int m * pow2 e\<bar> \<le> 2 ^ p * pow2 e"
    by (simp add: abs_mult)
qed

lemma nearest_fix_int:
  assumes "nearest_rounding 24 rnd" and "\<bar>m\<bar> \<le> 16777216"
  shows "rnd (of_int m * pow2 e) = of_int m * pow2 e"
  using assms by (intro nearest_fix [of 24] representable_int) simp_all

text \<open>Rounding a point of the grid \<open>2^e\<close> that lies \<open>k + 1\<close> binades too high for it.\<close>

lemma nearest_coarser:
  assumes near: "nearest_rounding 24 rnd"
    and lo: "16777216 * 2 ^ k \<le> \<bar>n\<bar>" and hi: "\<bar>n\<bar> \<le> 16777216 * (2 * 2 ^ k)"
  shows "\<exists>m. rnd (of_int n * pow2 e) = of_int m * pow2 (e + int (Suc k))
    \<and> \<bar>2 * 2 ^ k * m - n\<bar> \<le> 2 ^ k"
proof -
  let ?x = "of_int n * pow2 e"
  have abs: "\<bar>?x\<bar> = real_of_int \<bar>n\<bar> * pow2 e"
    by (simp add: abs_mult)
  have "real_of_int (16777216 * 2 ^ k) \<le> real_of_int \<bar>n\<bar>"
    "real_of_int \<bar>n\<bar> \<le> real_of_int (16777216 * (2 * 2 ^ k))"
    using lo hi by (simp_all only: of_int_le_iff)
  then have "real_of_int (16777216 * 2 ^ k) * pow2 e \<le> \<bar>?x\<bar>"
    "\<bar>?x\<bar> \<le> real_of_int (16777216 * (2 * 2 ^ k)) * pow2 e"
    unfolding abs by (simp_all only: mult_le_cancel_right_pos [OF pow2_pos])
  then have "2 ^ 24 * pow2 (e + int k) \<le> \<bar>?x\<bar>" "\<bar>?x\<bar> \<le> 2 ^ 24 * pow2 (e + int k + 1)"
    by (simp_all add: pow2_add pow2_nat pow2_one mult_ac)
  then have "(\<exists>m. rnd ?x = of_int m * pow2 (e + int k + 1)) \<and> \<bar>rnd ?x - ?x\<bar> \<le> pow2 (e + int k)"
    by (intro nearest_binade [OF near]) simp_all
  then obtain m where m: "rnd ?x = of_int m * pow2 (e + int k + 1)"
    and err: "\<bar>rnd ?x - ?x\<bar> \<le> pow2 (e + int k)"
    by blast
  have "rnd ?x - ?x = real_of_int (2 * 2 ^ k * m - n) * pow2 e"
    by (simp add: m pow2_add pow2_nat pow2_one algebra_simps)
  then have "\<bar>rnd ?x - ?x\<bar> = real_of_int \<bar>2 * 2 ^ k * m - n\<bar> * pow2 e"
    by (simp add: abs_mult)
  with err have "real_of_int \<bar>2 * 2 ^ k * m - n\<bar> * pow2 e \<le> real_of_int (2 ^ k) * pow2 e"
    by (simp add: pow2_shift)
  then have "real_of_int \<bar>2 * 2 ^ k * m - n\<bar> \<le> real_of_int (2 ^ k)"
    by (simp only: mult_le_cancel_right_pos [OF pow2_pos])
  then have "\<bar>2 * 2 ^ k * m - n\<bar> \<le> 2 ^ k"
    by (simp only: of_int_le_iff)
  moreover have "e + int k + 1 = e + int (Suc k)"
    by simp
  ultimately show ?thesis
    using m by metis
qed

lemma pow2_plus:
  "pow2 (e + 12) = 4096 * pow2 e" "pow2 (e + 13) = 8192 * pow2 e"
  "pow2 (e + 23) = 8388608 * pow2 e" "pow2 (e + 24) = 16777216 * pow2 e"
  using pow2_shift [of e 12] pow2_shift [of e 13] pow2_shift [of e 23] pow2_shift [of e 24]
  by simp_all

text \<open>
  \<open>twoProd\<close> splits an operand \<open>a\<close> with \<open>aHi = a * 4097 - (a * 4097 - a)\<close>. For a float
  \<open>a = A * 2^e\<close> with \<open>2^23 \<le> A < 2^24\<close> the high part is a multiple of \<open>2^(e+12)\<close> at most
  \<open>2^(e+11)\<close> away from \<open>a\<close>, so that it has 12 significant bits and the low part
  \<open>a - aHi\<close> is a float of at most \<open>2^11\<close> units \<open>2^e\<close>.
\<close>

lemma veltkamp_positive:
  fixes A :: int
  assumes near: "nearest_rounding 24 rnd"
    and A: "8388608 \<le> A" "A < 16777216"
    and a: "a = of_int A * pow2 e"
  shows "\<exists>kh. \<bar>kh\<bar> \<le> 4096 \<and> \<bar>A - 4096 * kh\<bar> \<le> 2048
    \<and> rnd (rnd (a * 4097) - rnd (rnd (a * 4097) - a)) = of_int kh * pow2 (e + 12)"
proof -
  have a4097: "a * 4097 = of_int (4097 * A) * pow2 e"
    by (simp add: a)
  have "\<exists>kS. rnd (a * 4097) = of_int kS * pow2 (e + 12)
      \<and> 4096 * A - 4096 \<le> 4096 * kS - A \<and> 4096 * kS - A \<le> 4096 * A + 4096
      \<and> 34359738368 \<le> 4096 * kS - A"
  proof -
    consider "A = 8388608" | "8388608 < A" "4097 * A \<le> 68719476736" | "68719476736 < 4097 * A"
      using A(1) by linarith
    then show ?thesis
    proof cases
      case 1
      have "a * 4097 = of_int 8390656 * pow2 (e + 12)"
        by (simp add: a 1 pow2_plus)
      moreover have "rnd (of_int 8390656 * pow2 (e + 12)) = of_int 8390656 * pow2 (e + 12)"
        using near by (rule nearest_fix_int) simp
      ultimately have "rnd (a * 4097) = of_int 8390656 * pow2 (e + 12)"
        by simp
      with 1 show ?thesis
        by (intro exI [of _ 8390656]) simp
    next
      case 2
      have "\<exists>m. rnd (of_int (4097 * A) * pow2 e) = of_int m * pow2 (e + int (Suc 11))
          \<and> \<bar>2 * 2 ^ 11 * m - 4097 * A\<bar> \<le> 2 ^ 11"
        using near
      proof (rule nearest_coarser)
        show "16777216 * 2 ^ 11 \<le> \<bar>4097 * A\<bar>" "\<bar>4097 * A\<bar> \<le> 16777216 * (2 * 2 ^ 11)"
          using A 2 by simp_all
      qed
      then obtain m where m: "rnd (a * 4097) = of_int m * pow2 (e + 12)"
        and err: "\<bar>4096 * m - 4097 * A\<bar> \<le> 2048"
        by (auto simp: a4097)
      from err 2 have "4096 * A - 4096 \<le> 4096 * m - A \<and> 4096 * m - A \<le> 4096 * A + 4096
          \<and> 34359738368 \<le> 4096 * m - A"
        by linarith
      with m show ?thesis
        by blast
    next
      case 3
      have "\<exists>m. rnd (of_int (4097 * A) * pow2 e) = of_int m * pow2 (e + int (Suc 12))
          \<and> \<bar>2 * 2 ^ 12 * m - 4097 * A\<bar> \<le> 2 ^ 12"
        using near
      proof (rule nearest_coarser)
        show "16777216 * 2 ^ 12 \<le> \<bar>4097 * A\<bar>" "\<bar>4097 * A\<bar> \<le> 16777216 * (2 * 2 ^ 12)"
          using A 3 by simp_all
      qed
      then obtain m where m: "rnd (a * 4097) = of_int m * pow2 (e + 13)"
        and err: "\<bar>8192 * m - 4097 * A\<bar> \<le> 4096"
        by (auto simp: a4097)
      have "of_int m * pow2 (e + 13) = of_int (2 * m) * pow2 (e + 12)"
        by (simp add: pow2_plus)
      with m have "rnd (a * 4097) = of_int (2 * m) * pow2 (e + 12)"
        by simp
      moreover from err 3 A have "4096 * A - 4096 \<le> 4096 * (2 * m) - A
          \<and> 4096 * (2 * m) - A \<le> 4096 * A + 4096 \<and> 34359738368 \<le> 4096 * (2 * m) - A"
        by linarith
      ultimately show ?thesis
        by blast
    qed
  qed
  then obtain kS where S: "rnd (a * 4097) = of_int kS * pow2 (e + 12)"
    and d_lo: "4096 * A - 4096 \<le> 4096 * kS - A" and d_hi: "4096 * kS - A \<le> 4096 * A + 4096"
    and d_binade: "34359738368 \<le> 4096 * kS - A"
    by blast
  have d: "rnd (a * 4097) - a = of_int (4096 * kS - A) * pow2 e"
    unfolding S by (simp add: a pow2_plus algebra_simps)
  have "\<exists>m. rnd (of_int (4096 * kS - A) * pow2 e) = of_int m * pow2 (e + int (Suc 11))
      \<and> \<bar>2 * 2 ^ 11 * m - (4096 * kS - A)\<bar> \<le> 2 ^ 11"
    using near
  proof (rule nearest_coarser)
    show "16777216 * 2 ^ 11 \<le> \<bar>4096 * kS - A\<bar>" "\<bar>4096 * kS - A\<bar> \<le> 16777216 * (2 * 2 ^ 11)"
      using d_binade d_hi A by simp_all
  qed
  then obtain kB where B: "rnd (rnd (a * 4097) - a) = of_int kB * pow2 (e + 12)"
    and errB: "\<bar>4096 * kB - (4096 * kS - A)\<bar> \<le> 2048"
    by (auto simp: d)
  have h: "rnd (a * 4097) - rnd (rnd (a * 4097) - a) = of_int (kS - kB) * pow2 (e + 12)"
    by (simp only: B) (simp add: S algebra_simps)
  have "A - 4096 * (kS - kB) = 4096 * kB - (4096 * kS - A)"
    by (simp add: algebra_simps)
  with errB have kl: "\<bar>A - 4096 * (kS - kB)\<bar> \<le> 2048"
    by simp
  from errB A have kh: "\<bar>kS - kB\<bar> \<le> 4096"
    by linarith
  have "rnd (of_int (kS - kB) * pow2 (e + 12)) = of_int (kS - kB) * pow2 (e + 12)"
    using near by (rule nearest_fix_int) (use kh in linarith)
  with kh kl show ?thesis
    unfolding h by blast
qed

lemma veltkamp:
  fixes A :: int
  assumes near: "nearest_rounding 24 rnd"
    and A: "8388608 \<le> \<bar>A\<bar>" "\<bar>A\<bar> < 16777216"
    and a: "a = of_int A * pow2 e"
  shows "\<exists>kh. \<bar>kh\<bar> \<le> 4096 \<and> \<bar>A - 4096 * kh\<bar> \<le> 2048
    \<and> rnd (rnd (a * 4097) - rnd (rnd (a * 4097) - a)) = of_int kh * pow2 (e + 12)"
proof (cases "0 \<le> A")
  case True
  with A show ?thesis
    by (intro veltkamp_positive [OF near _ _ a]) simp_all
next
  case False
  let ?m = "mirrored rnd"
  have "\<exists>kh. \<bar>kh\<bar> \<le> 4096 \<and> \<bar>- A - 4096 * kh\<bar> \<le> 2048
      \<and> ?m (?m (- a * 4097) - ?m (?m (- a * 4097) - - a)) = of_int kh * pow2 (e + 12)"
    using False A by (intro veltkamp_positive [OF mirrored_nearest [OF near]]) (simp_all add: a)
  then obtain kh where kh: "\<bar>kh\<bar> \<le> 4096" "\<bar>- A - 4096 * kh\<bar> \<le> 2048"
    and h: "?m (?m (- a * 4097) - ?m (?m (- a * 4097) - - a)) = of_int kh * pow2 (e + 12)"
    by blast
  have "?m (?m (- a * 4097) - ?m (?m (- a * 4097) - - a))
      = - rnd (rnd (a * 4097) - rnd (rnd (a * 4097) - a))"
    by (simp add: mirrored_def)
  with h have "rnd (rnd (a * 4097) - rnd (rnd (a * 4097) - a)) = of_int (- kh) * pow2 (e + 12)"
    by simp
  moreover from kh have "\<bar>- kh\<bar> \<le> 4096" "\<bar>A - 4096 * (- kh)\<bar> \<le> 2048"
    by simp_all
  ultimately show ?thesis
    by blast
qed

lemma representable_normal:
  assumes ra: "representable 24 a" and nz: "a \<noteq> 0"
  obtains A :: int and e where "a = of_int A * pow2 e" and "8388608 \<le> \<bar>A\<bar>" and "\<bar>A\<bar> < 16777216"
proof -
  define e where "e = exponent_of \<bar>a\<bar> - 23"
  have eq: "exponent_of \<bar>a\<bar> = e + 23"
    by (simp add: e_def)
  have "pow2 (exponent_of \<bar>a\<bar>) \<le> \<bar>a\<bar> \<and> \<bar>a\<bar> < pow2 (exponent_of \<bar>a\<bar> + 1)"
    using nz by (intro exponent_of_bounds) simp
  then have "pow2 (e + 23) \<le> \<bar>a\<bar>" "\<bar>a\<bar> < pow2 (e + 23 + 1)"
    unfolding eq by blast+
  moreover have "e + 23 + 1 = e + 24"
    by simp
  ultimately have b: "8388608 * pow2 e \<le> \<bar>a\<bar>" "\<bar>a\<bar> < 16777216 * pow2 e"
    by (simp_all only: pow2_plus)
  have "2 ^ 24 * pow2 (e - 1) = 8388608 * pow2 e"
    using pow2_add [of "e - 1" 1] by (simp add: pow2_one)
  with b(1) have "2 ^ 24 * pow2 (e - 1) \<le> \<bar>a\<bar>"
    by simp
  with ra have "\<exists>k. a = of_int k * pow2 (e - 1 + 1)"
    by (rule representable_coarse)
  then obtain A :: int where a: "a = of_int A * pow2 e"
    by auto
  then have "\<bar>a\<bar> = real_of_int \<bar>A\<bar> * pow2 e"
    by (simp add: abs_mult)
  with b have "real_of_int 8388608 * pow2 e \<le> real_of_int \<bar>A\<bar> * pow2 e"
    "real_of_int \<bar>A\<bar> * pow2 e < real_of_int 16777216 * pow2 e"
    by simp_all
  then have "real_of_int 8388608 \<le> real_of_int \<bar>A\<bar>" "real_of_int \<bar>A\<bar> < real_of_int 16777216"
    by (simp_all only: mult_le_cancel_right_pos [OF pow2_pos] mult_less_cancel_right_pos [OF pow2_pos])
  then have "8388608 \<le> \<bar>A\<bar>" "\<bar>A\<bar> < 16777216"
    by (simp_all only: of_int_le_iff of_int_less_iff)
  with a show ?thesis
    by (rule that)
qed

subsection \<open>The product of two floats\<close>

lemma abs_mult_bound:
  fixes x y :: int
  assumes "\<bar>x\<bar> \<le> c" and "\<bar>y\<bar> \<le> d"
  shows "\<bar>x * y\<bar> \<le> c * d"
proof -
  have "\<bar>x\<bar> * \<bar>y\<bar> \<le> c * d"
    using assms by (intro mult_mono) simp_all
  then show ?thesis
    by (simp add: abs_mult)
qed

text \<open>
  With both operands split in this way, the four partial products and the four sums in
  the last line of \<open>twoProd\<close> are floats: none of these operations rounds, and the
  second component of \<open>twoProd\<close> is the rounding error of \<open>a * b\<close>.
\<close>

lemma dekker:
  fixes A B kh jh :: int
  assumes near: "nearest_rounding 24 rnd"
    and A: "8388608 \<le> \<bar>A\<bar>" "\<bar>A\<bar> < 16777216" and kh: "\<bar>kh\<bar> \<le> 4096" "\<bar>A - 4096 * kh\<bar> \<le> 2048"
    and B: "8388608 \<le> \<bar>B\<bar>" "\<bar>B\<bar> < 16777216" and jh: "\<bar>jh\<bar> \<le> 4096" "\<bar>B - 4096 * jh\<bar> \<le> 2048"
    and a: "a = of_int A * pow2 ea" and ah: "ah = of_int kh * pow2 (ea + 12)"
    and b: "b = of_int B * pow2 eb" and bh: "bh = of_int jh * pow2 (eb + 12)"
  shows "rnd (rnd (rnd (rnd (rnd (ah * bh) - rnd (a * b)) + rnd (ah * rnd (b - bh)))
             + rnd (rnd (a - ah) * bh))
           + rnd (rnd (a - ah) * rnd (b - bh)))
    = a * b - rnd (a * b)"
proof -
  define kl where "kl = A - 4096 * kh"
  define jl where "jl = B - 4096 * jh"
  define E where "E = ea + eb"
  define P where "P = A * B"
  define X1 where "X1 = kh * jh"
  define X2 where "X2 = kh * jl"
  define X3 where "X3 = kl * jh"
  define X4 where "X4 = kl * jl"
  note exact_here = nearest_fix_int [OF near]
  have G: "pow2 E = pow2 ea * pow2 eb"
    by (simp add: E_def pow2_add)
  have kl: "\<bar>kl\<bar> \<le> 2048" and jl: "\<bar>jl\<bar> \<le> 2048"
    using kh(2) jh(2) by (simp_all add: kl_def jl_def)
  have X: "\<bar>X1\<bar> \<le> 4096 * 4096" "\<bar>X2\<bar> \<le> 4096 * 2048" "\<bar>X3\<bar> \<le> 2048 * 4096"
    "\<bar>X4\<bar> \<le> 2048 * 2048"
    unfolding X1_def X2_def X3_def X4_def
    by (rule abs_mult_bound, fact, fact)+
  have split: "P = 16777216 * X1 + 4096 * X2 + 4096 * X3 + X4"
    by (simp add: P_def X1_def X2_def X3_def X4_def kl_def jl_def algebra_simps)
  have "8388608 * 8388608 \<le> \<bar>A\<bar> * \<bar>B\<bar>"
    using A(1) B(1) by (intro mult_mono) simp_all
  moreover have "\<bar>A\<bar> * \<bar>B\<bar> < 16777216 * 16777216"
    using A B by (intro mult_strict_mono) simp_all
  ultimately have P: "70368744177664 \<le> \<bar>P\<bar>" "\<bar>P\<bar> < 281474976710656"
    by (simp_all add: P_def abs_mult)

  have al: "a - ah = of_int kl * pow2 ea" and bl: "b - bh = of_int jl * pow2 eb"
    by (simp_all add: a ah b bh kl_def jl_def pow2_plus algebra_simps)
  have ral: "rnd (a - ah) = of_int kl * pow2 ea" and rbl: "rnd (b - bh) = of_int jl * pow2 eb"
    unfolding al bl using kl jl by (simp_all add: exact_here)
  have ab: "a * b = of_int P * pow2 E"
    by (simp add: a b P_def G)

  have "\<exists>kp. rnd (a * b) = of_int kp * pow2 (E + 23) \<and> \<bar>8388608 * kp - P\<bar> \<le> 8388608"
  proof (cases "\<bar>P\<bar> \<le> 140737488355328")
    case True
    have "\<exists>m. rnd (of_int P * pow2 E) = of_int m * pow2 (E + int (Suc 22))
        \<and> \<bar>2 * 2 ^ 22 * m - P\<bar> \<le> 2 ^ 22"
      using near
    proof (rule nearest_coarser)
      show "16777216 * 2 ^ 22 \<le> \<bar>P\<bar>" "\<bar>P\<bar> \<le> 16777216 * (2 * 2 ^ 22)"
        using P True by simp_all
    qed
    then obtain m where "rnd (a * b) = of_int m * pow2 (E + 23)" "\<bar>8388608 * m - P\<bar> \<le> 4194304"
      by (auto simp: ab)
    then show ?thesis
      by (intro exI [of _ m]) simp
  next
    case False
    have "\<exists>m. rnd (of_int P * pow2 E) = of_int m * pow2 (E + int (Suc 23))
        \<and> \<bar>2 * 2 ^ 23 * m - P\<bar> \<le> 2 ^ 23"
      using near
    proof (rule nearest_coarser)
      show "16777216 * 2 ^ 23 \<le> \<bar>P\<bar>" "\<bar>P\<bar> \<le> 16777216 * (2 * 2 ^ 23)"
        using P False by simp_all
    qed
    then obtain m where m: "rnd (a * b) = of_int m * pow2 (E + 24)"
      and err: "\<bar>16777216 * m - P\<bar> \<le> 8388608"
      by (auto simp: ab)
    have "of_int m * pow2 (E + 24) = of_int (2 * m) * pow2 (E + 23)"
      by (simp add: pow2_plus)
    with m have "rnd (a * b) = of_int (2 * m) * pow2 (E + 23)"
      by simp
    moreover from err have "\<bar>8388608 * (2 * m) - P\<bar> \<le> 8388608"
      by simp
    ultimately show ?thesis
      by blast
  qed
  then obtain kp where p: "rnd (a * b) = of_int kp * pow2 (E + 23)"
    and errp: "\<bar>8388608 * kp - P\<bar> \<le> 8388608"
    by blast

  define m1 where "m1 = 2 * X1 - kp"
  define m2 where "m2 = 2048 * m1 + X2"
  define m3 where "m3 = m2 + X3"
  define m4 where "m4 = 4096 * m3 + X4"
  have m: "\<bar>m1\<bar> \<le> 16777216" "\<bar>m2\<bar> \<le> 16777216" "\<bar>m3\<bar> \<le> 16777216" "\<bar>m4\<bar> \<le> 16777216"
    and m4: "m4 = P - 8388608 * kp"
    using X errp split m1_def m2_def m3_def m4_def by linarith+

  have "ah * bh = of_int X1 * pow2 (E + 24)"
    by (simp only: ah bh pow2_plus G) (simp add: X1_def)
  then have r1: "rnd (ah * bh) = of_int X1 * pow2 (E + 24)"
    using X(1) by (simp add: exact_here)
  have "ah * rnd (b - bh) = of_int X2 * pow2 (E + 12)"
    by (simp only: ah rbl pow2_plus G) (simp add: X2_def)
  then have r2: "rnd (ah * rnd (b - bh)) = of_int X2 * pow2 (E + 12)"
    using X(2) by (simp add: exact_here)
  have "rnd (a - ah) * bh = of_int X3 * pow2 (E + 12)"
    by (simp only: bh ral pow2_plus G) (simp add: X3_def)
  then have r3: "rnd (rnd (a - ah) * bh) = of_int X3 * pow2 (E + 12)"
    using X(3) by (simp add: exact_here)
  have "rnd (a - ah) * rnd (b - bh) = of_int X4 * pow2 E"
    by (simp only: ral rbl G) (simp add: X4_def)
  then have r4: "rnd (rnd (a - ah) * rnd (b - bh)) = of_int X4 * pow2 E"
    using X(4) by (simp add: exact_here)

  have "rnd (ah * bh) - rnd (a * b) = of_int m1 * pow2 (E + 23)"
    by (simp only: r1 p pow2_plus) (simp add: m1_def algebra_simps)
  then have t1: "rnd (rnd (ah * bh) - rnd (a * b)) = of_int m1 * pow2 (E + 23)"
    using m(1) by (simp add: exact_here)
  have "rnd (rnd (ah * bh) - rnd (a * b)) + rnd (ah * rnd (b - bh)) = of_int m2 * pow2 (E + 12)"
    by (simp only: t1 r2 pow2_plus) (simp add: m2_def algebra_simps)
  then have t2: "rnd (rnd (rnd (ah * bh) - rnd (a * b)) + rnd (ah * rnd (b - bh)))
      = of_int m2 * pow2 (E + 12)"
    using m(2) by (simp add: exact_here)
  have "rnd (rnd (rnd (ah * bh) - rnd (a * b)) + rnd (ah * rnd (b - bh)))
      + rnd (rnd (a - ah) * bh) = of_int m3 * pow2 (E + 12)"
    by (simp only: t2 r3) (simp add: m3_def algebra_simps)
  then have t3: "rnd (rnd (rnd (rnd (ah * bh) - rnd (a * b)) + rnd (ah * rnd (b - bh)))
      + rnd (rnd (a - ah) * bh)) = of_int m3 * pow2 (E + 12)"
    using m(3) by (simp add: exact_here)
  have "rnd (rnd (rnd (rnd (ah * bh) - rnd (a * b)) + rnd (ah * rnd (b - bh)))
      + rnd (rnd (a - ah) * bh)) + rnd (rnd (a - ah) * rnd (b - bh)) = of_int m4 * pow2 E"
    by (simp only: t3 r4 pow2_plus) (simp add: m4_def algebra_simps)
  then have t4: "rnd (rnd (rnd (rnd (rnd (ah * bh) - rnd (a * b)) + rnd (ah * rnd (b - bh)))
      + rnd (rnd (a - ah) * bh)) + rnd (rnd (a - ah) * rnd (b - bh))) = of_int m4 * pow2 E"
    using m(4) by (simp add: exact_here)
  have "a * b - rnd (a * b) = of_int m4 * pow2 E"
    by (simp only: p) (simp add: ab pow2_plus m4 algebra_simps)
  with t4 show ?thesis
    by simp
qed

lemma twoProd_fst: "fst (twoProd rnd a b) = rnd (a * b)"
  by (simp add: twoProd_def Let_def)

lemma twoProd_snd:
  assumes near: "nearest_rounding 24 rnd" and ra: "representable 24 a" and rb: "representable 24 b"
  shows "snd (twoProd rnd a b) = a * b - rnd (a * b)"
proof (cases "a = 0 \<or> b = 0")
  case True
  have "rnd 0 = 0"
    using near by (rule nearest_fix) simp
  with True show ?thesis
    by (auto simp: twoProd_def Let_def)
next
  case False
  from ra False obtain A :: int and ea
    where a: "a = of_int A * pow2 ea" and A: "8388608 \<le> \<bar>A\<bar>" "\<bar>A\<bar> < 16777216"
    by (auto elim: representable_normal)
  from rb False obtain B :: int and eb
    where b: "b = of_int B * pow2 eb" and B: "8388608 \<le> \<bar>B\<bar>" "\<bar>B\<bar> < 16777216"
    by (auto elim: representable_normal)
  from veltkamp [OF near A a] obtain kh
    where kh: "\<bar>kh\<bar> \<le> 4096" "\<bar>A - 4096 * kh\<bar> \<le> 2048"
      and ah: "rnd (rnd (a * 4097) - rnd (rnd (a * 4097) - a)) = of_int kh * pow2 (ea + 12)"
    by blast
  from veltkamp [OF near B b] obtain jh
    where jh: "\<bar>jh\<bar> \<le> 4096" "\<bar>B - 4096 * jh\<bar> \<le> 2048"
      and bh: "rnd (rnd (b * 4097) - rnd (rnd (b * 4097) - b)) = of_int jh * pow2 (eb + 12)"
    by blast
  show ?thesis
    unfolding twoProd_def Let_def snd_conv
    by (rule dekker [OF near A kh B jh a ah b bh])
qed

lemma twoProd_sum:
  assumes "nearest_rounding 24 rnd" and "representable 24 a" and "representable 24 b"
  shows "fst (twoProd rnd a b) + snd (twoProd rnd a b) = a * b"
  using twoProd_snd [OF assms] by (simp add: twoProd_fst)

text \<open>
  \<open>ddMul\<close> adds the cross products to the error of \<open>a.x * b.x\<close>, in four operations
  that round, and never looks at \<open>a.y * b.y\<close>.
\<close>

lemma ddMul_sum:
  assumes near: "nearest_rounding 24 rnd"
    and ra: "representable 24 (fst a)" and rb: "representable 24 (fst b)"
  shows "fst (ddMul rnd a b) + snd (ddMul rnd a b)
    = rnd (fst a * fst b)
      + rnd (fst a * fst b - rnd (fst a * fst b)
             + rnd (rnd (fst a * snd b) + rnd (snd a * fst b)))"
proof -
  let ?low = "rnd (snd (twoProd rnd (fst a) (fst b))
    + rnd (rnd (fst a * snd b) + rnd (snd a * fst b)))"
  have "ddMul rnd a b = twoSum rnd (fst (twoProd rnd (fst a) (fst b))) ?low"
    by (simp add: ddMul_def Let_def)
  moreover have "fst (twoSum rnd (fst (twoProd rnd (fst a) (fst b))) ?low)
      + snd (twoSum rnd (fst (twoProd rnd (fst a) (fst b))) ?low)
      = fst (twoProd rnd (fst a) (fst b)) + ?low"
    using near
    by (rule twoSum_sum) (simp_all add: twoProd_fst nearest_representable [OF near])
  ultimately show ?thesis
    by (simp add: twoProd_fst twoProd_snd [OF near ra rb])
qed

lemma ddMul_error_arith:
  fixes P x1 x2 :: real
  assumes "0 \<le> P" and "0 \<le> x1" and "0 \<le> x2"
    and "16777216 * e1 \<le> x1" and "16777216 * e2 \<le> x2"
    and "s \<le> x1 + x2 + e1 + e2" and "16777216 * eq \<le> s" and "aq \<le> s + eq"
    and "16777216 * py \<le> P" and "t \<le> py + aq" and "16777216 * ey \<le> t"
    and "z \<le> ey + eq + e1 + e2"
  shows "z \<le> x1 / 4194304 + x2 / 4194304 + P / 281474976710656"
proof -
  from assms have "s \<le> 2 * x1 + 2 * x2"
    by linarith
  moreover from assms have "16777216 * s \<le> 16777217 * x1 + 16777217 * x2"
    by linarith
  moreover from assms have "281474976710656 * ey \<le> P + 16777216 * s + 16777216 * eq"
    by linarith
  ultimately have "281474976710656 * ey + 281474976710656 * eq + 281474976710656 * e1
      + 281474976710656 * e2
    \<le> 67108864 * x1 + 67108864 * x2 + P"
    using assms by linarith
  with assms(12) show ?thesis
    by linarith
qed

lemma ddMul_error:
  assumes near: "nearest_rounding 24 rnd"
    and ra: "representable 24 (fst a)" and rb: "representable 24 (fst b)"
  shows "\<bar>fst (ddMul rnd a b) + snd (ddMul rnd a b)
      - ((fst a + snd a) * (fst b + snd b) - snd a * snd b)\<bar>
    \<le> (\<bar>fst a * snd b\<bar> + \<bar>snd a * fst b\<bar>) / 2 ^ 22 + \<bar>fst a * fst b\<bar> / 2 ^ 48"
proof -
  define P where "P = fst a * fst b"
  define X1 where "X1 = fst a * snd b"
  define X2 where "X2 = snd a * fst b"
  define py where "py = P - rnd P"
  define q where "q = rnd (rnd X1 + rnd X2)"
  define y where "y = rnd (py + q)"
  note rel = nearest_relative_24 [OF near]
  have sum: "fst (ddMul rnd a b) + snd (ddMul rnd a b)
      - ((fst a + snd a) * (fst b + snd b) - snd a * snd b)
      = (y - (py + q)) + (q - (rnd X1 + rnd X2)) + (rnd X1 - X1) + (rnd X2 - X2)"
    unfolding ddMul_sum [OF near ra rb]
    by (simp add: y_def q_def py_def P_def X1_def X2_def algebra_simps)
  have e1: "16777216 * \<bar>rnd X1 - X1\<bar> \<le> \<bar>X1\<bar>" and e2: "16777216 * \<bar>rnd X2 - X2\<bar> \<le> \<bar>X2\<bar>"
    by (rule rel)+
  have eq: "16777216 * \<bar>q - (rnd X1 + rnd X2)\<bar> \<le> \<bar>rnd X1 + rnd X2\<bar>"
    unfolding q_def by (rule rel)
  have ey: "16777216 * \<bar>y - (py + q)\<bar> \<le> \<bar>py + q\<bar>"
    unfolding y_def by (rule rel)
  have epy: "16777216 * \<bar>py\<bar> \<le> \<bar>P\<bar>"
    using rel [of P] by (simp add: py_def abs_minus_commute)
  have s: "\<bar>rnd X1 + rnd X2\<bar> \<le> \<bar>X1\<bar> + \<bar>X2\<bar> + \<bar>rnd X1 - X1\<bar> + \<bar>rnd X2 - X2\<bar>"
    by linarith
  have aq: "\<bar>q\<bar> \<le> \<bar>rnd X1 + rnd X2\<bar> + \<bar>q - (rnd X1 + rnd X2)\<bar>"
    by linarith
  have t: "\<bar>py + q\<bar> \<le> \<bar>py\<bar> + \<bar>q\<bar>"
    by linarith
  have "\<bar>(y - (py + q)) + (q - (rnd X1 + rnd X2)) + (rnd X1 - X1) + (rnd X2 - X2)\<bar>
      \<le> \<bar>y - (py + q)\<bar> + \<bar>q - (rnd X1 + rnd X2)\<bar> + \<bar>rnd X1 - X1\<bar> + \<bar>rnd X2 - X2\<bar>"
    by linarith
  with abs_ge_zero [of P] abs_ge_zero [of X1] abs_ge_zero [of X2] e1 e2 s eq aq epy t ey
  have "\<bar>(y - (py + q)) + (q - (rnd X1 + rnd X2)) + (rnd X1 - X1) + (rnd X2 - X2)\<bar>
    \<le> \<bar>X1\<bar> / 4194304 + \<bar>X2\<bar> / 4194304 + \<bar>P\<bar> / 281474976710656"
    by (rule ddMul_error_arith)
  then show ?thesis
    unfolding sum P_def [symmetric] X1_def [symmetric] X2_def [symmetric]
    by (simp add: add_divide_distrib)
qed

subsection \<open>Examples in 24-bit arithmetic\<close>

lemma representable_24_reciprocal: "representable 24 (1 / 2 ^ n)"
proof -
  have "1 / 2 ^ n = of_int 1 * pow2 (- int n)"
    by (simp add: pow2_def)
  then show ?thesis
    unfolding representable_def by (intro exI [of _ 1] exI [of _ "- int n"]) simp
qed

lemma twoProd_one: "twoProd binary32 1 1 = (1, 0)"
  by (simp only: twoProd_def Let_def) (simp add: rounding_defs)

lemma ddMul_near_one: "ddMul binary32 (1, 1 / 2 ^ 30) (1, - (1 / 2 ^ 30)) = (1, 0)"
  by (simp only: ddMul_def twoProd_one twoSum_def Let_def fst_conv snd_conv)
     (simp add: rounding_defs)

lemma twoSum_one_small: "twoSum binary32 1 (1 / 2 ^ 30) = (1, 1 / 2 ^ 30)"
  by (simp only: twoSum_def Let_def) (simp add: rounding_defs)

lemma twoSum_small_tiny: "twoSum binary32 (1 / 2 ^ 40) (1 / 2 ^ 70) = (1 / 2 ^ 40, 1 / 2 ^ 70)"
  by (simp only: twoSum_def Let_def) (simp add: rounding_defs)

lemma low_sum_exact: "binary32 (1 / 2 ^ 30 + 1 / 2 ^ 40) = 1 / 2 ^ 30 + 1 / 2 ^ 40"
  by (simp add: rounding_defs)

lemma twoSum_one_low:
  "twoSum binary32 1 (1 / 2 ^ 30 + 1 / 2 ^ 40) = (1, 1 / 2 ^ 30 + 1 / 2 ^ 40)"
  by (simp only: twoSum_def Let_def) (simp add: rounding_defs)

lemma low_sum_rounds:
  "binary32 (1 / 2 ^ 30 + 1 / 2 ^ 40 + 1 / 2 ^ 70) = 1 / 2 ^ 30 + 1 / 2 ^ 40"
  by (simp add: rounding_defs)

lemma ddAdd_example:
  "ddAdd binary32 (1, 1 / 2 ^ 40) (1 / 2 ^ 30, 1 / 2 ^ 70) = (1, 1 / 2 ^ 30 + 1 / 2 ^ 40)"
  by (simp only: ddAdd_def Let_def fst_conv snd_conv twoSum_one_small twoSum_small_tiny
      low_sum_exact twoSum_one_low low_sum_rounds)

lemma twoProd_five: "twoProd binary32 5 1 = (5, 0)"
  by (simp only: twoProd_def Let_def) (simp add: rounding_defs)

lemma low_product_rounds:
  "binary32 (5 * ((1 + 1 / 2 ^ 23) / 2 ^ 30)) = (5 + 1 / 2 ^ 21) / 2 ^ 30"
  by (simp add: rounding_defs)

lemma low_product_fixed:
  "binary32 ((5 + 1 / 2 ^ 21) / 2 ^ 30) = (5 + 1 / 2 ^ 21) / 2 ^ 30"
  by (simp add: rounding_defs)

lemma twoSum_five_low:
  "twoSum binary32 5 ((5 + 1 / 2 ^ 21) / 2 ^ 30) = (5, (5 + 1 / 2 ^ 21) / 2 ^ 30)"
  by (simp only: twoSum_def Let_def) (simp add: rounding_defs)

lemma ddMul_example:
  "ddMul binary32 (5, 0) (1, (1 + 1 / 2 ^ 23) / 2 ^ 30) = (5, (5 + 1 / 2 ^ 21) / 2 ^ 30)"
  by (simp only: ddMul_def Let_def fst_conv snd_conv twoProd_five mult_zero_left
      binary32_zero add_0_right add_0_left low_product_rounds low_product_fixed twoSum_five_low)

subsection \<open>What \<open>ddAdd\<close> and \<open>ddMul\<close> return\<close>

text \<open>
  Claim C1, as stated: the pair that \<open>ddAdd\<close> or \<open>ddMul\<close> returns sums to exactly the sum
  or the product of its operands. In 24-bit arithmetic it fails for each operation:
  \<^item> the sum of \<open>(1, 2\<^sup>-\<^sup>4\<^sup>0)\<close> and \<open>(2\<^sup>-\<^sup>3\<^sup>0, 2\<^sup>-\<^sup>7\<^sup>0)\<close> needs more than two floats, and \<open>ddAdd\<close>
    returns \<open>(1, 2\<^sup>-\<^sup>3\<^sup>0 + 2\<^sup>-\<^sup>4\<^sup>0)\<close>, short by \<open>2\<^sup>-\<^sup>7\<^sup>0\<close>;
  \<^item> the product of \<open>(1, 2\<^sup>-\<^sup>3\<^sup>0)\<close> and \<open>(1, -2\<^sup>-\<^sup>3\<^sup>0)\<close> is \<open>1 - 2\<^sup>-\<^sup>6\<^sup>0\<close>, and \<open>ddMul\<close>, which
    never computes \<open>A.lo \<times> B.lo\<close>, returns \<open>(1, 0)\<close>;
  \<^item> the product of \<open>(5, 0)\<close> and \<open>(1, (1 + 2\<^sup>-\<^sup>2\<^sup>3) 2\<^sup>-\<^sup>3\<^sup>0)\<close> has no term \<open>A.lo \<times> B.lo\<close>, and
    \<open>ddMul\<close> is still short by \<open>2\<^sup>-\<^sup>5\<^sup>3\<close>, because \<open>a.x * b.y\<close> rounds.
\<close>

theorem dd_operations_not_exact:
  "fst (ddAdd binary32 (1, 1 / 2 ^ 40) (1 / 2 ^ 30, 1 / 2 ^ 70))
     + snd (ddAdd binary32 (1, 1 / 2 ^ 40) (1 / 2 ^ 30, 1 / 2 ^ 70))
   \<noteq> (1 + 1 / 2 ^ 40) + (1 / 2 ^ 30 + 1 / 2 ^ 70)
   \<and> fst (ddMul binary32 (1, 1 / 2 ^ 30) (1, - (1 / 2 ^ 30)))
     + snd (ddMul binary32 (1, 1 / 2 ^ 30) (1, - (1 / 2 ^ 30)))
   \<noteq> (1 + 1 / 2 ^ 30) * (1 + - (1 / 2 ^ 30))
   \<and> fst (ddMul binary32 (5, 0) (1, (1 + 1 / 2 ^ 23) / 2 ^ 30))
     + snd (ddMul binary32 (5, 0) (1, (1 + 1 / 2 ^ 23) / 2 ^ 30))
   \<noteq> (5 + 0) * (1 + (1 + 1 / 2 ^ 23) / 2 ^ 30) - 0 * ((1 + 1 / 2 ^ 23) / 2 ^ 30)"
  by (simp only: ddAdd_example ddMul_near_one ddMul_example fst_conv snd_conv) simp

text \<open>
  Claim C1, amended: in every 24-bit binary format whose operations round to nearest
  (no operation leaving the exponent range, which the model does not bound), for
  operands whose four components are floats,
  \<^item> the pair that \<open>ddAdd\<close> returns sums to the sum of its operands less the rounding
    errors of the two additions \<open>s.y += t.x\<close> and \<open>s.y += t.y\<close>, which is within
    \<open>|A.lo + B.lo| / 2\<^sup>2\<^sup>3 + |A.hi + B.hi| / 2\<^sup>4\<^sup>6\<close> of the sum of the operands;
  \<^item> the pair that \<open>ddMul\<close> returns sums to the product of its operands less
    \<open>A.lo \<times> B.lo\<close>, a term the code never computes, and less the rounding error of
    \<open>p.y + a.x * b.y + a.y * b.x\<close> as the code evaluates it, which is within
    \<open>(|A.hi \<times> B.lo| + |A.lo \<times> B.hi|) / 2\<^sup>2\<^sup>2 + |A.hi \<times> B.hi| / 2\<^sup>4\<^sup>8\<close> of the product less
    \<open>A.lo \<times> B.lo\<close>.

  \<open>twoSum\<close> and \<open>twoProd\<close> themselves lose nothing.
\<close>

theorem dd_operations_up_to_rounding:
  assumes near: "nearest_rounding 24 rnd"
    and ra: "representable 24 (fst a)" "representable 24 (snd a)"
    and rb: "representable 24 (fst b)" "representable 24 (snd b)"
  shows "(let s = twoSum rnd (fst a) (fst b);
              t = twoSum rnd (snd a) (snd b);
              u = snd s + fst t;
              s' = twoSum rnd (fst s) (rnd u);
              w = snd s' + snd t
          in fst (ddAdd rnd a b) + snd (ddAdd rnd a b)
               = (fst a + snd a) + (fst b + snd b) - (u - rnd u) - (w - rnd w))
    \<and> \<bar>fst (ddAdd rnd a b) + snd (ddAdd rnd a b) - ((fst a + snd a) + (fst b + snd b))\<bar>
      \<le> \<bar>snd a + snd b\<bar> / 2 ^ 23 + \<bar>fst a + fst b\<bar> / 2 ^ 46
    \<and> (let e = fst a * fst b - rnd (fst a * fst b);
              u = e + fst a * snd b + snd a * fst b
          in fst (ddMul rnd a b) + snd (ddMul rnd a b)
               = (fst a + snd a) * (fst b + snd b) - snd a * snd b
                 - (u - rnd (e + rnd (rnd (fst a * snd b) + rnd (snd a * fst b)))))
    \<and> \<bar>fst (ddMul rnd a b) + snd (ddMul rnd a b)
        - ((fst a + snd a) * (fst b + snd b) - snd a * snd b)\<bar>
      \<le> (\<bar>fst a * snd b\<bar> + \<bar>snd a * fst b\<bar>) / 2 ^ 22 + \<bar>fst a * fst b\<bar> / 2 ^ 48"
proof (intro conjI)
  show "let s = twoSum rnd (fst a) (fst b);
            t = twoSum rnd (snd a) (snd b);
            u = snd s + fst t;
            s' = twoSum rnd (fst s) (rnd u);
            w = snd s' + snd t
        in fst (ddAdd rnd a b) + snd (ddAdd rnd a b)
             = (fst a + snd a) + (fst b + snd b) - (u - rnd u) - (w - rnd w)"
    unfolding Let_def by (rule ddAdd_sum [OF near ra rb refl refl refl refl refl])
  show "let e = fst a * fst b - rnd (fst a * fst b);
            u = e + fst a * snd b + snd a * fst b
        in fst (ddMul rnd a b) + snd (ddMul rnd a b)
             = (fst a + snd a) * (fst b + snd b) - snd a * snd b
               - (u - rnd (e + rnd (rnd (fst a * snd b) + rnd (snd a * fst b))))"
    unfolding Let_def ddMul_sum [OF near ra(1) rb(1)] by (simp add: algebra_simps)
qed (rule ddAdd_error [OF near ra rb], rule ddMul_error [OF near ra(1) rb(1)])

theorem dd_operations_up_to_rounding_witness:
  "nearest_rounding 24 binary32 \<and> representable 24 1 \<and> representable 24 (1 / 2 ^ 40)
   \<and> representable 24 (1 / 2 ^ 30) \<and> representable 24 (1 / 2 ^ 70)
   \<and> (let s = twoSum binary32 1 (1 / 2 ^ 30);
            t = twoSum binary32 (1 / 2 ^ 40) (1 / 2 ^ 70);
            u = snd s + fst t;
            s' = twoSum binary32 (fst s) (binary32 u);
            w = snd s' + snd t
        in fst (ddAdd binary32 (1, 1 / 2 ^ 40) (1 / 2 ^ 30, 1 / 2 ^ 70))
           + snd (ddAdd binary32 (1, 1 / 2 ^ 40) (1 / 2 ^ 30, 1 / 2 ^ 70))
           = (1 + 1 / 2 ^ 40) + (1 / 2 ^ 30 + 1 / 2 ^ 70) - (u - binary32 u) - (w - binary32 w))
   \<and> \<bar>fst (ddAdd binary32 (1, 1 / 2 ^ 40) (1 / 2 ^ 30, 1 / 2 ^ 70))
        + snd (ddAdd binary32 (1, 1 / 2 ^ 40) (1 / 2 ^ 30, 1 / 2 ^ 70))
        - ((1 + 1 / 2 ^ 40) + (1 / 2 ^ 30 + 1 / 2 ^ 70))\<bar>
      \<le> \<bar>1 / 2 ^ 40 + 1 / 2 ^ 70\<bar> / 2 ^ 23 + \<bar>1 + 1 / 2 ^ 30\<bar> / 2 ^ 46
   \<and> (let e = 1 * (1 / 2 ^ 30) - binary32 (1 * (1 / 2 ^ 30));
            u = e + 1 * (1 / 2 ^ 70) + 1 / 2 ^ 40 * (1 / 2 ^ 30)
        in fst (ddMul binary32 (1, 1 / 2 ^ 40) (1 / 2 ^ 30, 1 / 2 ^ 70))
           + snd (ddMul binary32 (1, 1 / 2 ^ 40) (1 / 2 ^ 30, 1 / 2 ^ 70))
           = (1 + 1 / 2 ^ 40) * (1 / 2 ^ 30 + 1 / 2 ^ 70) - 1 / 2 ^ 40 * (1 / 2 ^ 70)
             - (u - binary32 (e + binary32 (binary32 (1 * (1 / 2 ^ 70))
                 + binary32 (1 / 2 ^ 40 * (1 / 2 ^ 30))))))
   \<and> \<bar>fst (ddMul binary32 (1, 1 / 2 ^ 40) (1 / 2 ^ 30, 1 / 2 ^ 70))
        + snd (ddMul binary32 (1, 1 / 2 ^ 40) (1 / 2 ^ 30, 1 / 2 ^ 70))
        - ((1 + 1 / 2 ^ 40) * (1 / 2 ^ 30 + 1 / 2 ^ 70) - 1 / 2 ^ 40 * (1 / 2 ^ 70))\<bar>
      \<le> (\<bar>1 * (1 / 2 ^ 70)\<bar> + \<bar>1 / 2 ^ 40 * (1 / 2 ^ 30)\<bar>) / 2 ^ 22
        + \<bar>1 * (1 / 2 ^ 30)\<bar> / 2 ^ 48"
  using binary32_nearest representable_24_one representable_24_reciprocal [of 40]
    representable_24_reciprocal [of 30] representable_24_reciprocal [of 70]
    dd_operations_up_to_rounding [of binary32 "(1, 1 / 2 ^ 40)" "(1 / 2 ^ 30, 1 / 2 ^ 70)"]
  by (simp only: fst_conv snd_conv)

end
